theory Spec2Isabelle
  imports Complex_Main "HOL-Library.Multiset"
begin

section \<open>Data model\<close>

text \<open>
  The module \<^verbatim>\<open>generate_oil_analysis.py\<close> works on pandas tables. A table is modelled
  by the ordered list of its column names and the ordered list of its rows; a row maps a
  column name to a cell (only the entries at the table's column names belong to the
  table; the positional index that \<^verbatim>\<open>reset_index(drop=True)\<close> and
  \<^verbatim>\<open>ignore_index=True\<close> renumber is the position in the list).

  A cell is what \<^verbatim>\<open>read_csv(..., parse_dates=["date"])\<close> delivers:
  \<^item> \<open>Num x\<close>: a cell whose content denotes the number \<open>x\<close>;
  \<^item> \<open>Stamp d\<close>: a parsed date (a point on the time line, an integer);
  \<^item> \<open>Txt s\<close>: text that denotes neither;
  \<^item> \<open>Missing\<close>: an empty cell (pandas' NaN or NaT).

  Python floats are modelled by the reals: the arithmetic of the model is exact and a
  not-a-number is the value \<open>None\<close> of \<open>real option\<close> (\<open>Missing\<close> in a table).

  The loader's input is the table in the file. Of \<^verbatim>\<open>read_csv\<close> the model has the
  check of the \<^verbatim>\<open>parse_dates\<close> column; opening and parsing the file and a date column
  that pandas leaves as text are not part of it, and neither are the directories that
  the reporters create nor the rendering of plots and pages.
\<close>

datatype cell = Num real | Stamp int | Txt string | Missing

type_synonym row = "string \<Rightarrow> cell"

record frame =
  columns :: "string list"
  rows :: "row list"

text \<open>
  The exceptions of the module. Three are \<^verbatim>\<open>ValueError\<close>s about absent columns:
  \<^item> \<open>MissingParseDates\<close> is raised by \<^verbatim>\<open>read_csv(..., parse_dates=["date"])\<close>
    when the file has no date column; its message names the absent columns of
    \<^verbatim>\<open>parse_dates\<close>, that is date alone;
  \<^item> \<open>MissingRequiredColumns\<close> is raised by the check of \<^verbatim>\<open>load_price_history\<close>
    and carries the set \<^verbatim>\<open>required - set(df.columns)\<close> that its message prints;
  \<^item> \<open>MustContainColumns\<close> is raised by \<^verbatim>\<open>compute_crack\<close> with a fixed message.

  \<open>TypeError\<close> is what Python raises when the arithmetic of the crack formula meets a
  cell that is not a float, and when the maximum of the date column of a table without
  rows (which is no date) is compared with the reference date. \<open>IndexError\<close> is what
  \<^verbatim>\<open>iloc[-1]\<close> raises on a table without rows, \<open>DateError\<close> what the rendering of a
  date raises on a cell that has none.
\<close>

datatype error =
    MissingParseDates "string set"
  | MissingRequiredColumns "string set"
  | MustContainColumns
  | TypeError
  | IndexError
  | DateError

definition required :: "string set" where
  "required = {''date'', ''crude'', ''rbob'', ''ulsd''}"

definition col :: "frame \<Rightarrow> string \<Rightarrow> cell list" where
  \<comment> \<open>\<^verbatim>\<open>df[c]\<close>, read\<close>
  "col df c = map (\<lambda>r. r c) (rows df)"

definition set_col :: "string \<Rightarrow> cell list \<Rightarrow> frame \<Rightarrow> frame" where
  \<comment> \<open>\<^verbatim>\<open>df[c] = vs\<close>: an existing column is overwritten in place, a new one is
      appended after the others\<close>
  "set_col c vs df =
     df\<lparr>columns := (if c \<in> set (columns df) then columns df else columns df @ [c]),
        rows := map (\<lambda>(r, v). r(c := v)) (zip (rows df) vs)\<rparr>"

definition as_float :: "cell \<Rightarrow> real option" where
  \<comment> \<open>the value of a cell of a float column\<close>
  "as_float c = (case c of Num x \<Rightarrow> Some x | _ \<Rightarrow> None)"

definition of_float :: "real option \<Rightarrow> cell" where
  "of_float v = (case v of Some x \<Rightarrow> Num x | None \<Rightarrow> Missing)"

section \<open>The loader\<close>

subsection \<open>Sorting by date\<close>

definition stamp_of :: "cell \<Rightarrow> int option" where
  "stamp_of c = (case c of Stamp d \<Rightarrow> Some d | _ \<Rightarrow> None)"

definition stamp_key :: "row \<Rightarrow> int" where
  "stamp_key r = (case r ''date'' of Stamp d \<Rightarrow> d | _ \<Rightarrow> 0)"

definition dated :: "row \<Rightarrow> bool" where
  "dated r = (stamp_of (r ''date'') \<noteq> None)"

definition sort_values_date :: "row list \<Rightarrow> row list" where
  \<comment> \<open>\<^verbatim>\<open>df.sort_values("date")\<close>: the rows with a date in ascending order, then the
      rows without one (\<^verbatim>\<open>na_position="last"\<close>) in their input order. Rows of equal
      date are kept in input order here; pandas' default sorting algorithm keeps them so
      only on short tables (up to 16 rows) and promises no order among them on longer
      ones. No statement below depends on the order among rows of equal date. A cell
      of the date column that is not a parsed date counts as a missing date.\<close>
  "sort_values_date rs = sort_key stamp_key (filter dated rs) @ filter (\<lambda>r. \<not> dated r) rs"

subsection \<open>Coercion and gap filling of one column\<close>

definition to_numeric :: "cell \<Rightarrow> cell" where
  \<comment> \<open>\<^verbatim>\<open>pd.to_numeric(..., errors="coerce")\<close> on one cell\<close>
  "to_numeric c = (case c of Num x \<Rightarrow> Num x | _ \<Rightarrow> Missing)"

fun next_valid :: "real option list \<Rightarrow> (nat \<times> real) option" where
  \<comment> \<open>the first valid value of a column and the number of missing values before it\<close>
  "next_valid [] = None"
| "next_valid (Some v # xs) = Some (0, v)"
| "next_valid (None # xs) = (case next_valid xs of None \<Rightarrow> None | Some (d, v) \<Rightarrow> Some (Suc d, v))"

fun interp_from :: "nat \<Rightarrow> (real \<times> nat) option \<Rightarrow> real option list \<Rightarrow> real option list" where
  \<comment> \<open>\<^verbatim>\<open>Series.interpolate(limit=limit)\<close> (linear, forward) from a position on: the
      second argument is the last valid value \<open>a\<close> before the position and the number
      \<open>k\<close> of missing values since, or \<open>None\<close> before the first valid value.
      A missing value before the first valid one stays missing; one more than \<open>limit\<close>
      positions after the last valid one stays missing; one after the last valid value
      of the column takes that value; any other takes the value of the straight line
      between its valid neighbours at positions \<open>p\<close> and \<open>q\<close>, which is
      \<open>slope * (i - p) + a\<close> with \<open>slope = (b - a) / (q - p)\<close>.\<close>
  "interp_from limit prev [] = []"
| "interp_from limit prev (Some v # xs) = Some v # interp_from limit (Some (v, 0)) xs"
| "interp_from limit None (None # xs) = None # interp_from limit None xs"
| "interp_from limit (Some (a, k)) (None # xs) =
     (if limit < Suc k then None
      else case next_valid xs of
             None \<Rightarrow> Some a
           | Some (d, b) \<Rightarrow> Some ((b - a) / real (Suc k + Suc d) * real (Suc k) + a))
     # interp_from limit (Some (a, Suc k)) xs"

definition interpolate :: "nat \<Rightarrow> real option list \<Rightarrow> real option list" where
  "interpolate limit xs = interp_from limit None xs"

fun ffill_from :: "real option \<Rightarrow> real option list \<Rightarrow> real option list" where
  "ffill_from prev [] = []"
| "ffill_from prev (Some v # xs) = Some v # ffill_from (Some v) xs"
| "ffill_from prev (None # xs) = prev # ffill_from prev xs"

definition ffill :: "real option list \<Rightarrow> real option list" where
  \<comment> \<open>\<^verbatim>\<open>Series.ffill()\<close>: a missing value takes the last valid value before it\<close>
  "ffill xs = ffill_from None xs"

definition bfill :: "real option list \<Rightarrow> real option list" where
  \<comment> \<open>\<^verbatim>\<open>Series.bfill()\<close>: a missing value takes the first valid value after it\<close>
  "bfill xs = rev (ffill (rev xs))"

definition fill_gaps :: "real option list \<Rightarrow> real option list" where
  \<comment> \<open>\<^verbatim>\<open>.interpolate(limit=7).ffill().bfill()\<close>\<close>
  "fill_gaps xs = bfill (ffill (interpolate 7 xs))"

definition coerce_col :: "string \<Rightarrow> frame \<Rightarrow> frame" where
  \<comment> \<open>\<^verbatim>\<open>df[c] = pd.to_numeric(df[c], errors="coerce")\<close>\<close>
  "coerce_col c df = set_col c (map to_numeric (col df c)) df"

definition fill_col :: "string \<Rightarrow> frame \<Rightarrow> frame" where
  \<comment> \<open>\<^verbatim>\<open>df[c] = df[c].interpolate(limit=7).ffill().bfill()\<close>\<close>
  "fill_col c df = set_col c (map of_float (fill_gaps (map as_float (col df c)))) df"

subsection \<open>The reference date\<close>

definition max_date :: "row list \<Rightarrow> int option" where
  \<comment> \<open>\<^verbatim>\<open>df["date"].max()\<close>: the largest date, missing dates skipped; no value when
      there is none\<close>
  "max_date rs =
     (case List.map_filter (\<lambda>r. stamp_of (r ''date'')) rs of
        [] \<Rightarrow> None
      | d # ds \<Rightarrow> Some (fold max ds d))"

definition clean :: "frame \<Rightarrow> frame" where
  \<comment> \<open>the body of \<^verbatim>\<open>load_price_history\<close> between the schema check and the
      reference-date extension\<close>
  "clean df =
     (let df = df\<lparr>rows := sort_values_date (rows df)\<rparr>;
          df = coerce_col ''crude'' df;
          df = coerce_col ''rbob'' df;
          df = coerce_col ''ulsd'' df;
          df = fill_col ''crude'' df;
          df = fill_col ''rbob'' df;
          df = fill_col ''ulsd'' df
      in df)"

definition extend_to :: "int option \<Rightarrow> frame \<Rightarrow> error + frame" where
  \<comment> \<open>\<^verbatim>\<open>if today is not None: if df["date"].max() < today: ...\<close>. On a table without
      rows the date column holds no dates, its maximum is no date, and the comparison
      raises. On a table with rows a comparison with a missing maximum is false.\<close>
  "extend_to today df =
     (case today of
        None \<Rightarrow> Inr df
      | Some t \<Rightarrow>
          (case rows df of
             [] \<Rightarrow> Inl TypeError
           | _ \<Rightarrow>
               (case max_date (rows df) of
                  None \<Rightarrow> Inr df
                | Some m \<Rightarrow>
                    if m < t
                    then Inr (df\<lparr>rows := rows df @ [(last (rows df))(''date'' := Stamp t)]\<rparr>)
                    else Inr df)))"

definition read_csv :: "frame \<Rightarrow> error + frame" where
  \<comment> \<open>\<^verbatim>\<open>pd.read_csv(csv_path, parse_dates=["date"])\<close> on the table in the file:
      pandas raises when the column to parse as dates is not in the file\<close>
  "read_csv file =
     (if ''date'' \<in> set (columns file) then Inr file else Inl (MissingParseDates {''date''}))"

definition load_price_history :: "frame \<Rightarrow> int option \<Rightarrow> error + frame" where
  \<comment> \<open>the first argument is the table in the file at \<^verbatim>\<open>csv_path\<close>\<close>
  "load_price_history file today =
     (case read_csv file of
        Inl e \<Rightarrow> Inl e
      | Inr df \<Rightarrow>
          if \<not> required \<subseteq> set (columns df)
          then Inl (MissingRequiredColumns (required - set (columns df)))
          else extend_to today (clean df))"

section \<open>The spread calculator\<close>

definition crack_formula :: "real \<Rightarrow> real \<Rightarrow> real \<Rightarrow> real" where
  \<comment> \<open>arguments in the order crude, rbob, ulsd\<close>
  "crack_formula c r u = (2 * r + 1 * u) * 42 - 3 * c"

definition numeric :: "cell \<Rightarrow> bool" where
  "numeric c = (case c of Num x \<Rightarrow> True | Missing \<Rightarrow> True | _ \<Rightarrow> False)"

definition crack_cell :: "row \<Rightarrow> error + cell" where
  \<comment> \<open>the formula on one row: a not-a-number operand gives a not-a-number, an operand
      that is text or a date makes the arithmetic raise\<close>
  "crack_cell r =
     (if numeric (r ''rbob'') \<and> numeric (r ''ulsd'') \<and> numeric (r ''crude'') then
        (case (as_float (r ''crude''), as_float (r ''rbob''), as_float (r ''ulsd'')) of
           (Some c, Some b, Some u) \<Rightarrow> Inr (Num (crack_formula c b u))
         | _ \<Rightarrow> Inr Missing)
      else Inl TypeError)"

fun collect :: "(error + 'a) list \<Rightarrow> error + 'a list" where
  \<comment> \<open>the results of all rows, or the first error\<close>
  "collect [] = Inr []"
| "collect (Inl e # xs) = Inl e"
| "collect (Inr v # xs) = (case collect xs of Inl e \<Rightarrow> Inl e | Inr vs \<Rightarrow> Inr (v # vs))"

definition compute_crack :: "frame \<Rightarrow> error + frame" where
  "compute_crack prices =
     (if \<not> {''crude'', ''rbob'', ''ulsd'', ''date''} \<subseteq> set (columns prices)
      then Inl MustContainColumns
      else case collect (map crack_cell (rows prices)) of
             Inl e \<Rightarrow> Inl e
           | Inr vs \<Rightarrow> Inr (set_col ''crack'' vs prices))"

section \<open>The percentile ranker\<close>

definition dropna :: "real option list \<Rightarrow> real list" where
  "dropna series = List.map_filter id series"

definition le_value :: "real option \<Rightarrow> real \<Rightarrow> bool" where
  \<comment> \<open>\<^verbatim>\<open>x <= value\<close>; a comparison with a not-a-number is false\<close>
  "le_value v x = (case v of None \<Rightarrow> False | Some t \<Rightarrow> x \<le> t)"

definition compute_percentile :: "real option list \<Rightarrow> real option \<Rightarrow> real option" where
  "compute_percentile series v =
     (let arr = dropna series in
      if length arr = 0 then None
      else Some (real (length (filter (le_value v) arr)) / real (length arr) * 100))"

section \<open>The scenario builder\<close>

record scenario =
  crude :: real
  rbob :: real
  ulsd :: real
  crack :: real

definition crude_moves :: "real list" where
  "crude_moves = [- 1, 0, 1]"

definition prod_moves :: "real list" where
  "prod_moves = [- 0.05, 0, 0.05]"

definition scenario_row :: "real \<Rightarrow> real \<Rightarrow> real \<Rightarrow> real \<Rightarrow> real \<Rightarrow> scenario" where
  \<comment> \<open>the body of the inner loop\<close>
  "scenario_row c0 r0 u0 dc dp =
     (let c = c0 + dc; r = r0 + dp; u = u0 + dp
      in \<lparr>crude = c, rbob = r, ulsd = u, crack = (2 * r + u) * 42 - 3 * c\<rparr>)"

definition scenarios :: "real \<Rightarrow> real \<Rightarrow> real \<Rightarrow> scenario list" where
  \<comment> \<open>the list that the two nested loops append to\<close>
  "scenarios c0 r0 u0 =
     concat (map (\<lambda>dc. map (\<lambda>dp. scenario_row c0 r0 u0 dc dp) prod_moves) crude_moves)"

definition sort_values_desc :: "('a \<Rightarrow> real) \<Rightarrow> 'a list \<Rightarrow> 'a list" where
  \<comment> \<open>\<^verbatim>\<open>sort_values([key], ascending=False)\<close>: pandas reverses the rows, sorts them
      ascending and reverses the result (on the nine rows here its sort is an insertion
      sort, which keeps equal keys in order)\<close>
  "sort_values_desc key xs = rev (sort_key key (rev xs))"

definition build_scenario_table :: "real \<Rightarrow> real \<Rightarrow> real \<Rightarrow> scenario list" where
  "build_scenario_table c0 r0 u0 = sort_values_desc crack (scenarios c0 r0 u0)"

section \<open>The spread calculator on objects\<close>

text \<open>
  \<^verbatim>\<open>compute_crack\<close> receives a reference to a table object, copies the object and
  assigns the new column to the copy. To speak about the object that the caller still
  holds, the store of table objects is made explicit: an object is named by its position
  in the store, and a new object is placed after the existing ones.
\<close>

type_synonym store = "frame list"

definition copy_frame :: "store \<Rightarrow> nat \<Rightarrow> nat \<times> store" where
  \<comment> \<open>\<^verbatim>\<open>prices.copy()\<close>: a new object with the content of the old one\<close>
  "copy_frame s p = (length s, s @ [s ! p])"

definition assign_col :: "store \<Rightarrow> nat \<Rightarrow> string \<Rightarrow> cell list \<Rightarrow> store" where
  \<comment> \<open>\<^verbatim>\<open>df[c] = vs\<close> on the object \<open>df\<close>, in place\<close>
  "assign_col s df c vs = s[df := set_col c vs (s ! df)]"

definition compute_crack_in :: "store \<Rightarrow> nat \<Rightarrow> (error + nat) \<times> store" where
  \<comment> \<open>the result is the exception or the object returned, and the store after the call\<close>
  "compute_crack_in s prices =
     (let (df, s1) = copy_frame s prices in
      if \<not> {''crude'', ''rbob'', ''ulsd'', ''date''} \<subseteq> set (columns (s1 ! df))
      then (Inl MustContainColumns, s1)
      else case collect (map crack_cell (rows (s1 ! df))) of
             Inl e \<Rightarrow> (Inl e, s1)
           | Inr vs \<Rightarrow> (Inr df, assign_col s1 df ''crack'' vs))"

section \<open>The note reporter\<close>

text \<open>
  The renderings that Python and pandas supply are parameters of the model: the text of
  the calendar date of a cell (\<^verbatim>\<open>pd.to_datetime(x).date()\<close>; no text where that
  raises), the format \<^verbatim>\<open>:.1f\<close> of a float, and the text of a citation that is a
  sequence of fewer than two strings.
\<close>

record formats =
  fmt_date :: "cell \<Rightarrow> string option"
  fmt_1f :: "real option \<Rightarrow> string"
  fmt_seq :: "string list \<Rightarrow> string"

datatype citation = Seq "string list" | Bare string

type_synonym files = "string \<rightharpoonup> string"

definition mean :: "real option list \<Rightarrow> real option" where
  \<comment> \<open>\<^verbatim>\<open>Series.mean()\<close>: the missing values are skipped\<close>
  "mean xs = (let arr = dropna xs in if arr = [] then None else Some (sum_list arr / real (length arr)))"

definition newline :: string where
  "newline = [CHR 0x0A]"

definition em_dash :: string where
  \<comment> \<open>U+2014 in UTF-8\<close>
  "em_dash = [CHR 0xE2, CHR 0x80, CHR 0x94]"

definition nb_hyphen :: string where
  \<comment> \<open>U+2011 in UTF-8\<close>
  "nb_hyphen = [CHR 0xE2, CHR 0x80, CHR 0x91]"

definition three_two_one :: string where
  "three_two_one = ''3'' @ nb_hyphen @ ''2'' @ nb_hyphen @ ''1''"

fun join :: "string \<Rightarrow> string list \<Rightarrow> string" where
  \<comment> \<open>\<^verbatim>\<open>sep.join(lines)\<close>\<close>
  "join sep [] = []"
| "join sep [l] = l"
| "join sep (l # ls) = l @ sep @ join sep ls"

definition citation_line :: "formats \<Rightarrow> citation \<Rightarrow> string" where
  "citation_line F r =
     (case r of
        Seq (label # url # _) \<Rightarrow> ''- ['' @ label @ '']('' @ url @ '')'' @ newline
      | Seq short \<Rightarrow> ''- '' @ fmt_seq F short @ newline
      | Bare str \<Rightarrow> ''- '' @ str @ newline)"

definition note_lines ::
  "formats \<Rightarrow> string \<Rightarrow> real option \<Rightarrow> real option \<Rightarrow> real option \<Rightarrow> citation list \<Rightarrow> string list" where
  "note_lines F day latest_crack pct avg citation_refs =
     [''# Market note '' @ em_dash @ '' '' @ three_two_one @ '' crack overview ('' @ day @ '')'' @ newline,
      ''Today'' @ [CHR 0x27] @ ''s '' @ three_two_one @ '' crack: **'' @ fmt_1f F latest_crack
        @ '' USD/bbl** (percentile: **'' @ fmt_1f F pct @ ''%** vs history).'' @ newline,
      ''3'' @ nb_hyphen @ ''year average (approx): **'' @ fmt_1f F avg
        @ '' USD/bbl**. This note is automatically generated and should be edited before distribution.''
        @ newline]
     @ (if citation_refs \<noteq> []
        then (newline @ ''References:'' @ newline) # map (citation_line F) citation_refs
        else [])"

definition write_market_note ::
  "formats \<Rightarrow> files \<Rightarrow> frame \<Rightarrow> int option \<Rightarrow> string \<Rightarrow> citation list \<Rightarrow> error + files" where
  \<comment> \<open>the second argument is the content of the file system before the call, the result
      its content after\<close>
  "write_market_note F fs prices today note_path citation_refs =
     (case compute_crack prices of
        Inl e \<Rightarrow> Inl e
      | Inr df \<Rightarrow>
          (case rows df of
             [] \<Rightarrow> Inl IndexError
           | _ \<Rightarrow>
               (let latest = last (rows df);
                    latest_crack = as_float (latest ''crack'');
                    pct = (if latest_crack \<noteq> None
                           then compute_percentile (map as_float (col df ''crack'')) latest_crack
                           else None);
                    avg = mean (map as_float (col df ''crack''))
                in case fmt_date F (latest ''date'') of
                     None \<Rightarrow> Inl DateError
                   | Some day \<Rightarrow>
                       Inr (fs(note_path \<mapsto>
                              join newline (note_lines F day latest_crack pct avg citation_refs))))))"

section \<open>Notions used in the statements\<close>

definition coerced :: "frame \<Rightarrow> string \<Rightarrow> real option list" where
  \<comment> \<open>column \<open>c\<close> of the table as the gap filling meets it: sorted by date and coerced\<close>
  "coerced df c = map (\<lambda>r. as_float (to_numeric (r c))) (sort_values_date (rows df))"

definition col_of :: "error + frame \<Rightarrow> string \<Rightarrow> cell list" where
  \<comment> \<open>column \<open>c\<close> of a returned table (no cells when the call raised)\<close>
  "col_of res c = (case res of Inr out \<Rightarrow> col out c | Inl e \<Rightarrow> [])"

definition rows_of :: "error + frame \<Rightarrow> row list" where
  \<comment> \<open>the rows of a returned table (none when the call raised)\<close>
  "rows_of res = (case res of Inr out \<Rightarrow> rows out | Inl e \<Rightarrow> [])"

definition price_columns :: "string set" where
  "price_columns = {''crude'', ''rbob'', ''ulsd''}"

section \<open>Example tables\<close>

definition mk_row :: "cell \<Rightarrow> cell \<Rightarrow> cell \<Rightarrow> cell \<Rightarrow> row" where
  "mk_row d c r u = (\<lambda>_. Missing)(''date'' := d, ''crude'' := c, ''rbob'' := r, ''ulsd'' := u)"

definition price_header :: "string list" where
  "price_header = [''date'', ''crude'', ''rbob'', ''ulsd'']"

definition spec_prices :: frame where
  \<comment> \<open>the row of the specification's example: crude 80, rbob 2.40, ulsd 2.60\<close>
  "spec_prices = \<lparr>columns = price_header, rows = [mk_row (Stamp 0) (Num 80) (Num 2.4) (Num 2.6)]\<rparr>"

definition stale_prices :: frame where
  \<comment> \<open>the same row in a table that already has a crack column\<close>
  "stale_prices =
     \<lparr>columns = price_header @ [''crack''],
      rows = [(mk_row (Stamp 0) (Num 80) (Num 2.4) (Num 2.6))(''crack'' := Num 0)]\<rparr>"

definition no_date_no_ulsd :: frame where
  \<comment> \<open>a file with the header \<^verbatim>\<open>crude,rbob\<close> and one row\<close>
  "no_date_no_ulsd =
     \<lparr>columns = [''crude'', ''rbob''],
      rows = [(\<lambda>_. Missing)(''crude'' := Num 80, ''rbob'' := Num 2.4)]\<rparr>"

definition long_gap :: frame where
  \<comment> \<open>twelve days with ten missing values of rbob between 0 and 11\<close>
  "long_gap =
     \<lparr>columns = price_header,
      rows = mk_row (Stamp 0) (Num 80) (Num 0) (Num 3)
             # map (\<lambda>d. mk_row (Stamp d) (Num 80) Missing (Num 3)) [1, 2, 3, 4, 5, 6, 7, 8, 9, 10]
             @ [mk_row (Stamp 11) (Num 80) (Num 11) (Num 3)]\<rparr>"

definition short_gaps :: frame where
  \<comment> \<open>five days out of order; crude starts and ends with a missing value and has a
      cell that is no number between 10 and 20\<close>
  "short_gaps =
     \<lparr>columns = price_header,
      rows = [mk_row (Stamp 3) (Txt ''n/a'') (Num 2) (Num 3),
              mk_row (Stamp 1) Missing (Num 2) (Num 3),
              mk_row (Stamp 2) (Num 10) (Num 2) (Num 3),
              mk_row (Stamp 5) Missing (Num 2) (Num 3),
              mk_row (Stamp 4) (Num 20) (Num 2) (Num 3)]\<rparr>"

section \<open>The percentile ranker: proofs\<close>

lemma dropna_Nil: "dropna [] = []"
  by (simp add: dropna_def)

lemma dropna_Cons: "dropna (x # xs) = (case x of None \<Rightarrow> dropna xs | Some v \<Rightarrow> v # dropna xs)"
  by (simp add: dropna_def split: option.splits)

lemma length_dropna: "length (dropna s) = length (filter (\<lambda>v. v \<noteq> None) s)"
  by (induction s) (simp_all add: dropna_Nil dropna_Cons split: option.splits)

lemma length_filter_dropna:
  "length (filter P (dropna s)) = length (filter (\<lambda>v. \<exists>x. v = Some x \<and> P x) s)"
  by (induction s) (simp_all add: dropna_Nil dropna_Cons split: option.splits)

text \<open>
  C4. For every series and every target \<open>t\<close>, \<open>compute_percentile\<close> returns 100 times
  the number of positions that hold a non-missing value \<open>\<le> t\<close> (a value equal to \<open>t\<close>
  counts), divided by the number of positions that hold a non-missing value; when no
  position holds a value the result is the not-a-number \<open>None\<close>, not an error. An
  all-missing series gives \<open>None\<close>, and the series 10, 20, 30, 40 with target 30
  gives 75.
\<close>

theorem compute_percentile_rank:
  "compute_percentile series (Some t) =
     (if card {i. i < length series \<and> series ! i \<noteq> None} = 0 then None
      else Some (100 * real (card {i. i < length series \<and> (\<exists>x. series ! i = Some x \<and> x \<le> t)})
                  / real (card {i. i < length series \<and> series ! i \<noteq> None})))
   \<and> compute_percentile (replicate n None) v = None
   \<and> compute_percentile [Some 10, Some 20, Some 30, Some 40] (Some 30) = Some 75"
proof (intro conjI)
  have n: "length (dropna series) = card {i. i < length series \<and> series ! i \<noteq> None}"
    by (simp add: length_dropna length_filter_conv_card)
  have k: "length (filter (le_value (Some t)) (dropna series))
             = card {i. i < length series \<and> (\<exists>x. series ! i = Some x \<and> x \<le> t)}"
  proof -
    have "length (filter (le_value (Some t)) (dropna series))
            = length (filter (\<lambda>v. \<exists>x. v = Some x \<and> x \<le> t) series)"
      by (simp add: length_filter_dropna le_value_def)
    then show ?thesis by (simp add: length_filter_conv_card)
  qed
  show "compute_percentile series (Some t) =
     (if card {i. i < length series \<and> series ! i \<noteq> None} = 0 then None
      else Some (100 * real (card {i. i < length series \<and> (\<exists>x. series ! i = Some x \<and> x \<le> t)})
                  / real (card {i. i < length series \<and> series ! i \<noteq> None})))"
    unfolding compute_percentile_def Let_def n k by simp
next
  have "dropna (replicate n None) = []"
    by (induction n) (simp_all add: dropna_Nil dropna_Cons)
  then show "compute_percentile (replicate n None) v = None"
    by (simp add: compute_percentile_def)
next
  show "compute_percentile [Some 10, Some 20, Some 30, Some 40] (Some 30) = Some 75"
    by (simp add: compute_percentile_def dropna_Nil dropna_Cons le_value_def)
qed

section \<open>The spread calculator: proofs\<close>

lemma length_rows_set_col:
  "length vs = length (rows df) \<Longrightarrow> length (rows (set_col c vs df)) = length (rows df)"
  by (simp add: set_col_def)

lemma nth_rows_set_col:
  "length vs = length (rows df) \<Longrightarrow> i < length (rows df) \<Longrightarrow>
     rows (set_col c vs df) ! i = (rows df ! i)(c := vs ! i)"
  by (simp add: set_col_def)

lemma columns_set_col:
  "columns (set_col c vs df) = (if c \<in> set (columns df) then columns df else columns df @ [c])"
  by (simp add: set_col_def)

lemma col_set_col:
  assumes "length vs = length (rows df)"
  shows "col (set_col c vs df) d = (if d = c then vs else col df d)"
proof -
  have "map (\<lambda>r. r d) (map (\<lambda>(r, v). r(c := v)) (zip (rows df) vs))
          = (if d = c then map snd (zip (rows df) vs) else map (\<lambda>r. r d) (map fst (zip (rows df) vs)))"
    by (auto simp: comp_def split_def)
  with assms show ?thesis
    by (simp add: col_def set_col_def)
qed

lemma collect_Inr:
  "collect xs = Inr vs \<Longrightarrow> map Inr vs = xs"
proof (induction xs arbitrary: vs)
  case Nil
  then show ?case by simp
next
  case (Cons x xs)
  then show ?case
    by (cases x) (auto split: sum.splits)
qed

lemma collect_Inl:
  "collect xs = Inl e \<Longrightarrow> Inl e \<in> set xs"
proof (induction xs)
  case Nil
  then show ?case by simp
next
  case (Cons x xs)
  then show ?case
    by (cases x) (auto split: sum.splits)
qed

lemma crack_cell_error: "crack_cell r = Inl e \<Longrightarrow> e = TypeError"
  by (auto simp: crack_cell_def split: if_splits option.splits)

lemma crack_cell_value:
  "crack_cell r = Inr v \<Longrightarrow>
     v = (case (r ''crude'', r ''rbob'', r ''ulsd'') of
            (Num c, Num b, Num u) \<Rightarrow> Num (crack_formula c b u)
          | _ \<Rightarrow> Missing)"
  by (auto simp: crack_cell_def as_float_def numeric_def split: if_splits cell.splits)

lemma compute_crack_Inr:
  assumes "compute_crack df = Inr out"
  shows "\<exists>vs. collect (map crack_cell (rows df)) = Inr vs \<and> length vs = length (rows df)
           \<and> out = set_col ''crack'' vs df"
proof -
  from assms obtain vs where c: "collect (map crack_cell (rows df)) = Inr vs"
    and o: "out = set_col ''crack'' vs df"
    by (auto simp: compute_crack_def split: if_splits sum.splits)
  from collect_Inr [OF c] have "length (map Inr vs :: (error + cell) list) = length (map crack_cell (rows df))"
    by simp
  then have "length vs = length (rows df)" by simp
  with c o show ?thesis by blast
qed

lemma spec_prices_crack:
  "compute_crack spec_prices = Inr (set_col ''crack'' [Num 70.8] spec_prices)"
  by (simp add: compute_crack_def spec_prices_def price_header_def mk_row_def crack_cell_def
      numeric_def as_float_def crack_formula_def)

lemma spec_prices_crack_col:
  "col_of (compute_crack spec_prices) ''crack'' = [Num 70.8]"
  unfolding spec_prices_crack col_of_def by (simp add: col_set_col spec_prices_def)

text \<open>
  C5 (as amended). Whenever \<open>compute_crack\<close> returns, the returned table has as many
  rows as the input, and in every row whose crude, rbob and ulsd are the numbers \<open>c\<close>,
  \<open>b\<close> and \<open>u\<close> the crack is exactly \<open>(2 * b + 1 * u) * 42 - 3 * c\<close>, with no
  rounding. For crude = 80, rbob = 2.40, ulsd = 2.60 that value is 70.8.
\<close>

theorem compute_crack_formula:
  assumes "compute_crack df = Inr out" and "i < length (rows df)"
    and "(rows df ! i) ''crude'' = Num c" and "(rows df ! i) ''rbob'' = Num b"
    and "(rows df ! i) ''ulsd'' = Num u"
  shows "length (rows out) = length (rows df)
         \<and> (rows out ! i) ''crack'' = Num ((2 * b + 1 * u) * 42 - 3 * c)
         \<and> col_of (compute_crack spec_prices) ''crack'' = [Num 70.8]"
proof -
  from compute_crack_Inr [OF assms(1)] obtain vs
    where c: "collect (map crack_cell (rows df)) = Inr vs" and l: "length vs = length (rows df)"
      and o: "out = set_col ''crack'' vs df"
    by blast
  from collect_Inr [OF c] have "map Inr vs ! i = map crack_cell (rows df) ! i"
    by simp
  with assms(2) l have "crack_cell (rows df ! i) = Inr (vs ! i)"
    by simp
  from crack_cell_value [OF this] assms(3,4,5)
  have v: "vs ! i = Num ((2 * b + 1 * u) * 42 - 3 * c)"
    by (simp add: crack_formula_def)
  have "(rows out ! i) ''crack'' = vs ! i"
    using assms(2) l o by (simp add: nth_rows_set_col)
  moreover have "length (rows out) = length (rows df)"
    using l o by (simp add: length_rows_set_col)
  moreover have "col_of (compute_crack spec_prices) ''crack'' = [Num 70.8]"
    by (rule spec_prices_crack_col)
  ultimately show ?thesis using v by simp
qed

text \<open>The theorem at the row of the specification's example.\<close>

theorem compute_crack_formula_witness:
  "(rows (set_col ''crack'' [Num 70.8] spec_prices) ! 0) ''crack'' = Num ((2 * 2.4 + 1 * 2.6) * 42 - 3 * 80)
   \<and> length (rows (set_col ''crack'' [Num 70.8] spec_prices)) = length (rows spec_prices)"
  using compute_crack_formula [OF spec_prices_crack, of 0 80 "2.4" "2.6"]
  by (simp add: spec_prices_def mk_row_def)

text \<open>
  C5 as stated gives 79.2 for crude = 80, rbob = 2.40, ulsd = 2.60; the formula gives
  \<open>(2 * 2.40 + 2.60) * 42 - 3 * 80 = 7.40 * 42 - 240 = 70.8\<close>.
\<close>

theorem compute_crack_example_counterexample:
  "col_of (compute_crack spec_prices) ''crack'' = [Num 70.8]
   \<and> col_of (compute_crack spec_prices) ''crack'' \<noteq> [Num 79.2]"
  by (simp add: spec_prices_crack_col)

lemma extend_to_returns:
  assumes "today = None \<or> rows df \<noteq> []"
  shows "\<exists>out. extend_to today df = Inr out"
proof (cases "rows df")
  case Nil
  with assms show ?thesis
    by (simp add: extend_to_def)
next
  case (Cons r rs)
  then show ?thesis
    by (simp add: extend_to_def split: option.splits)
qed

lemma extend_to_nonempty:
  assumes "rows df \<noteq> []"
  shows "extend_to (Some t) df =
           (case max_date (rows df) of
              None \<Rightarrow> Inr df
            | Some m \<Rightarrow>
                if m < t
                then Inr (df\<lparr>rows := rows df @ [(last (rows df))(''date'' := Stamp t)]\<rparr>)
                else Inr df)"
proof (cases "rows df")
  case Nil
  with assms show ?thesis by simp
next
  case (Cons r rs)
  then show ?thesis
    by (simp add: extend_to_def)
qed

lemma load_price_history_extend:
  "required \<subseteq> set (columns df) \<Longrightarrow> load_price_history df today = extend_to today (clean df)"
  by (simp add: load_price_history_def read_csv_def required_def)

lemma compute_crack_error:
  assumes "{''crude'', ''rbob'', ''ulsd'', ''date''} \<subseteq> set (columns df)" and "compute_crack df = Inl e"
  shows "e = TypeError"
proof -
  from assms have "collect (map crack_cell (rows df)) = Inl e"
    by (auto simp: compute_crack_def split: sum.splits)
  then have "Inl e \<in> set (map crack_cell (rows df))"
    by (rule collect_Inl)
  then obtain r where "crack_cell r = Inl e"
    by auto
  then show ?thesis by (rule crack_cell_error)
qed

subsection \<open>The schema checks\<close>

text \<open>
  What the two checks do. With the date column in the file, the loader's own check
  reports exactly the absent ones of crude, rbob, ulsd. Without the date column the
  loader fails before its check, in \<^verbatim>\<open>read_csv\<close>, whatever else is absent.
  \<open>compute_crack\<close> fails with its fixed message when any of the four is absent.
\<close>

lemma load_price_history_with_date:
  assumes "''date'' \<in> set (columns df)" and "\<not> required \<subseteq> set (columns df)"
  shows "load_price_history df today
           = Inl (MissingRequiredColumns {c \<in> {''crude'', ''rbob'', ''ulsd''}. c \<notin> set (columns df)})"
proof -
  from assms(1)
  have "required - set (columns df) = {c \<in> {''crude'', ''rbob'', ''ulsd''}. c \<notin> set (columns df)}"
    unfolding required_def by blast
  with assms show ?thesis
    by (simp add: load_price_history_def read_csv_def)
qed

lemma load_price_history_without_date:
  "''date'' \<notin> set (columns df) \<Longrightarrow> load_price_history df today = Inl (MissingParseDates {''date''})"
  by (simp add: load_price_history_def read_csv_def)

lemma compute_crack_without_column:
  "\<not> required \<subseteq> set (columns df) \<Longrightarrow> compute_crack df = Inl MustContainColumns"
proof -
  assume "\<not> required \<subseteq> set (columns df)"
  then have "\<not> {''crude'', ''rbob'', ''ulsd'', ''date''} \<subseteq> set (columns df)"
    unfolding required_def by blast
  then show ?thesis
    by (simp add: compute_crack_def)
qed

text \<open>
  C2, at a file whose header is \<^verbatim>\<open>crude,rbob\<close>. The columns date and ulsd are
  absent, and the claim asks for a schema error that names them. The loader fails in
  \<^verbatim>\<open>read_csv\<close>, before its own check, with the error that names date alone.
\<close>

theorem load_price_history_names_date_only:
  "load_price_history no_date_no_ulsd None = Inl (MissingParseDates {''date''})
   \<and> required - set (columns no_date_no_ulsd) = {''date'', ''ulsd''}"
proof
  show "load_price_history no_date_no_ulsd None = Inl (MissingParseDates {''date''})"
    by (rule load_price_history_without_date) (simp add: no_date_no_ulsd_def)
next
  show "required - set (columns no_date_no_ulsd) = {''date'', ''ulsd''}"
    by (auto simp: required_def no_date_no_ulsd_def)
qed

lemma compute_crack_in_pure:
  assumes "prices < length s"
  shows "compute_crack_in s prices =
     (case compute_crack (s ! prices) of
        Inl e \<Rightarrow> (Inl e, s @ [s ! prices])
      | Inr out \<Rightarrow> (Inr (length s), s @ [out]))"
  by (simp add: compute_crack_in_def copy_frame_def assign_col_def compute_crack_def
      split: sum.splits)

lemma compute_crack_columns:
  assumes "compute_crack df = Inr out"
  shows "columns out = (if ''crack'' \<in> set (columns df) then columns df else columns df @ [''crack''])"
    and "c \<noteq> ''crack'' \<Longrightarrow> col out c = col df c"
    and "col out ''crack'' =
           map (\<lambda>r. case (r ''crude'', r ''rbob'', r ''ulsd'') of
                      (Num c, Num b, Num u) \<Rightarrow> Num (crack_formula c b u)
                    | _ \<Rightarrow> Missing) (rows df)"
proof -
  from compute_crack_Inr [OF assms] obtain vs
    where c: "collect (map crack_cell (rows df)) = Inr vs" and l: "length vs = length (rows df)"
      and o: "out = set_col ''crack'' vs df"
    by blast
  show "columns out = (if ''crack'' \<in> set (columns df) then columns df else columns df @ [''crack''])"
    by (simp add: o columns_set_col)
  show "c \<noteq> ''crack'' \<Longrightarrow> col out c = col df c"
    by (simp add: o l col_set_col)
  have "vs = map (\<lambda>r. case (r ''crude'', r ''rbob'', r ''ulsd'') of
                      (Num c, Num b, Num u) \<Rightarrow> Num (crack_formula c b u)
                    | _ \<Rightarrow> Missing) (rows df)"
  proof (rule nth_equalityI)
    show "length vs = length (map (\<lambda>r. case (r ''crude'', r ''rbob'', r ''ulsd'') of
                      (Num c, Num b, Num u) \<Rightarrow> Num (crack_formula c b u)
                    | _ \<Rightarrow> Missing) (rows df))"
      using l by simp
  next
    fix i assume i: "i < length vs"
    from collect_Inr [OF c] have "map Inr vs ! i = map crack_cell (rows df) ! i"
      by simp
    with i l have "crack_cell (rows df ! i) = Inr (vs ! i)"
      by simp
    from crack_cell_value [OF this] i l
    show "vs ! i = map (\<lambda>r. case (r ''crude'', r ''rbob'', r ''ulsd'') of
                      (Num c, Num b, Num u) \<Rightarrow> Num (crack_formula c b u)
                    | _ \<Rightarrow> Missing) (rows df) ! i"
      by simp
  qed
  then show "col out ''crack'' =
           map (\<lambda>r. case (r ''crude'', r ''rbob'', r ''ulsd'') of
                      (Num c, Num b, Num u) \<Rightarrow> Num (crack_formula c b u)
                    | _ \<Rightarrow> Missing) (rows df)"
    using o l by (simp add: col_set_col)
qed

text \<open>
  C9 (as amended). \<open>compute_crack\<close> never changes its input: after the call every
  object that existed before, the input among them, is as it was, whether the call
  returns or raises. The table returned is a new object; its columns are those of the
  input, followed by crack unless the input already had one; every column other than
  crack has the values of the input; and the crack column holds the formula's value in
  the rows where the three prices are numbers and a missing value elsewhere (a crack
  column of the input is overwritten).
\<close>

theorem compute_crack_in_frame:
  assumes "prices < length s" and "compute_crack_in s prices = (res, s')"
  shows "take (length s) s' = s
         \<and> s' ! prices = s ! prices
         \<and> (\<forall>df. res = Inr df \<longrightarrow>
               df = length s \<and> length s' = Suc (length s)
               \<and> columns (s' ! df) = (if ''crack'' \<in> set (columns (s ! prices)) then columns (s ! prices)
                                      else columns (s ! prices) @ [''crack''])
               \<and> (\<forall>c. c \<noteq> ''crack'' \<longrightarrow> col (s' ! df) c = col (s ! prices) c)
               \<and> col (s' ! df) ''crack'' =
                   map (\<lambda>r. case (r ''crude'', r ''rbob'', r ''ulsd'') of
                              (Num c, Num b, Num u) \<Rightarrow> Num (crack_formula c b u)
                            | _ \<Rightarrow> Missing) (rows (s ! prices)))"
proof (cases "compute_crack (s ! prices)")
  case (Inl e)
  with assms have "res = Inl e" "s' = s @ [s ! prices]"
    by (simp_all add: compute_crack_in_pure)
  with assms(1) show ?thesis
    by (simp add: nth_append)
next
  case (Inr out)
  with assms have r: "res = Inr (length s)" and s': "s' = s @ [out]"
    by (simp_all add: compute_crack_in_pure)
  from compute_crack_columns [OF Inr] r s' assms(1) show ?thesis
    by (simp add: nth_append)
qed

lemma spec_prices_in:
  "compute_crack_in [spec_prices] 0 = (Inr 1, [spec_prices, set_col ''crack'' [Num 70.8] spec_prices])"
  using compute_crack_in_pure [of 0 "[spec_prices]"] by (simp add: spec_prices_crack)

text \<open>The theorem at a store that holds the one-row example table.\<close>

theorem compute_crack_in_frame_witness:
  "[spec_prices, set_col ''crack'' [Num 70.8] spec_prices] ! 0 = spec_prices
   \<and> col ([spec_prices, set_col ''crack'' [Num 70.8] spec_prices] ! 1) ''crude'' = [Num 80]
   \<and> col ([spec_prices, set_col ''crack'' [Num 70.8] spec_prices] ! 1) ''crack'' = [Num 70.8]
   \<and> columns ([spec_prices, set_col ''crack'' [Num 70.8] spec_prices] ! 1)
       = [''date'', ''crude'', ''rbob'', ''ulsd'', ''crack'']"
proof -
  have z: "(0::nat) < length [spec_prices]" by simp
  from compute_crack_in_frame [OF z spec_prices_in]
  show ?thesis
    by (simp add: spec_prices_def price_header_def col_def mk_row_def crack_formula_def)
qed

text \<open>
  C9 as stated promises every original column with its original values; an input that
  already has a crack column gets the column recomputed.
\<close>

theorem compute_crack_overwrites_counterexample:
  "''crack'' \<in> set (columns stale_prices)
   \<and> col stale_prices ''crack'' = [Num 0]
   \<and> col_of (compute_crack stale_prices) ''crack'' = [Num 70.8]
   \<and> col_of (compute_crack stale_prices) ''crack'' \<noteq> col stale_prices ''crack''"
proof -
  have "compute_crack stale_prices = Inr (set_col ''crack'' [Num 70.8] stale_prices)"
    by (simp add: compute_crack_def stale_prices_def price_header_def mk_row_def crack_cell_def
      numeric_def as_float_def crack_formula_def)
  then have "col_of (compute_crack stale_prices) ''crack'' = [Num 70.8]"
    unfolding col_of_def by (simp add: col_set_col stale_prices_def)
  then show ?thesis
    by (simp add: stale_prices_def col_def)
qed

section \<open>The loader: proofs\<close>

subsection \<open>One column: interpolation, forward fill, backward fill\<close>

lemma length_interp_from: "length (interp_from l st xs) = length xs"
  by (induction l st xs rule: interp_from.induct) simp_all

lemma length_ffill_from: "length (ffill_from p xs) = length xs"
  by (induction p xs rule: ffill_from.induct) simp_all

lemma length_fill_gaps: "length (fill_gaps xs) = length xs"
  by (simp add: fill_gaps_def bfill_def ffill_def interpolate_def length_ffill_from length_interp_from)

lemma next_valid_append_Some:
  "next_valid (pre @ Some a # rest)
     = (case next_valid pre of None \<Rightarrow> Some (length pre, a) | Some r \<Rightarrow> Some r)"
  by (induction pre rule: next_valid.induct) (simp_all split: option.splits)

lemma next_valid_replicate: "next_valid (replicate n None @ Some b # post) = Some (n, b)"
  by (induction n) simp_all

lemma next_valid_replicate_None: "next_valid (replicate n None) = None"
  by (induction n) simp_all

lemma interp_from_append_Some:
  "interp_from l st (pre @ Some a # rest)
     = interp_from l st (pre @ [Some a]) @ interp_from l (Some (a, 0)) rest"
  by (induction l st pre rule: interp_from.induct) (simp_all add: next_valid_append_Some)

lemma interp_from_keeps:
  "i < length xs \<Longrightarrow> xs ! i = Some v \<Longrightarrow> interp_from l st xs ! i = Some v"
proof (induction l st xs arbitrary: i rule: interp_from.induct)
  case (1 l prev)
  then show ?case by simp
next
  case (2 l prev w xs)
  then show ?case by (cases i) simp_all
next
  case (3 l xs)
  then show ?case by (cases i) simp_all
next
  case (4 l a k xs)
  then show ?case by (cases i) simp_all
qed

lemma interp_gap_nth:
  "j < n \<Longrightarrow>
   interp_from l (Some (a, k)) (replicate n None @ Some b # post) ! j
     = (if l < Suc (k + j) then None
        else Some ((b - a) / real (Suc (k + n)) * real (Suc (k + j)) + a))"
proof (induction n arbitrary: k j)
  case 0
  then show ?case by simp
next
  case (Suc n)
  show ?case
  proof (cases j)
    case 0
    then show ?thesis
      by (simp add: next_valid_replicate)
  next
    case (Suc j')
    with Suc.prems have "j' < n" by simp
    from Suc.IH [OF this, of "Suc k"] Suc show ?thesis
      by simp
  qed
qed

lemma interp_tail_set:
  "set (interp_from l (Some (a, k)) (replicate n None)) \<subseteq> {None, Some a}"
  by (induction n arbitrary: k) (simp_all add: next_valid_replicate_None)

lemma interp_lead:
  "interp_from l None (replicate n None @ rest) = replicate n None @ interp_from l None rest"
  by (induction n) simp_all

lemma ffill_from_append_Some:
  "ffill_from p (pre @ Some a # rest) = ffill_from p (pre @ [Some a]) @ ffill_from (Some a) rest"
  by (induction p pre rule: ffill_from.induct) simp_all

lemma ffill_from_keeps:
  "i < length xs \<Longrightarrow> xs ! i = Some v \<Longrightarrow> ffill_from p xs ! i = Some v"
proof (induction p xs arbitrary: i rule: ffill_from.induct)
  case (1 prev)
  then show ?case by simp
next
  case (2 prev w xs)
  then show ?case by (cases i) simp_all
next
  case (3 prev xs)
  then show ?case by (cases i) simp_all
qed

lemma ffill_from_step:
  "Suc i < length xs \<Longrightarrow> xs ! Suc i = None \<Longrightarrow> ffill_from p xs ! Suc i = ffill_from p xs ! i"
proof (induction p xs arbitrary: i rule: ffill_from.induct)
  case (1 prev)
  then show ?case by simp
next
  case (2 prev w xs)
  then show ?case by (cases i; cases xs) simp_all
next
  case (3 prev xs)
  then show ?case by (cases i; cases xs) simp_all
qed

lemma ffill_from_no_None: "None \<notin> set xs \<Longrightarrow> ffill_from p xs = xs"
  by (induction p xs rule: ffill_from.induct) simp_all

lemma ffill_from_Some_valid: "None \<notin> set (ffill_from (Some v) xs)"
proof (induction xs arbitrary: v)
  case Nil
  then show ?case by simp
next
  case (Cons x xs)
  then show ?case by (cases x) simp_all
qed

lemma ffill_from_Some_const:
  "set xs \<subseteq> {None, Some a} \<Longrightarrow> ffill_from (Some a) xs = replicate (length xs) (Some a)"
proof (induction xs)
  case Nil
  then show ?case by simp
next
  case (Cons x xs)
  then show ?case by (cases x) auto
qed

lemma ffill_from_replicate: "ffill_from p (replicate n None) = replicate n p"
  by (induction n) simp_all

lemma ffill_from_lead:
  "ffill_from None (replicate n None @ rest) = replicate n None @ ffill_from None rest"
  by (induction n) simp_all

lemma bfill_keeps:
  assumes "i < length xs" and "xs ! i = Some v"
  shows "bfill xs ! i = Some v"
proof -
  let ?j = "length xs - Suc i"
  have j: "?j < length (rev xs)" using assms(1) by simp
  have "rev xs ! ?j = Some v"
    using assms by (simp add: rev_nth)
  with j have "ffill_from None (rev xs) ! ?j = Some v"
    by (rule ffill_from_keeps)
  moreover have "bfill xs ! i = ffill_from None (rev xs) ! ?j"
    using assms(1) by (simp add: bfill_def ffill_def rev_nth length_ffill_from)
  ultimately show ?thesis by simp
qed

lemma bfill_lead:
  "bfill (replicate n None @ Some a # ys) = replicate n (Some a) @ bfill (Some a # ys)"
proof -
  have "ffill_from None (rev ys @ Some a # replicate n None)
          = ffill_from None (rev ys @ [Some a]) @ replicate n (Some a)"
    by (simp add: ffill_from_append_Some [of _ _ _ "replicate n None"] ffill_from_replicate)
  then show ?thesis
    by (simp add: bfill_def ffill_def)
qed

lemma bfill_no_None: "None \<notin> set xs \<Longrightarrow> bfill xs = xs"
  by (simp add: bfill_def ffill_def ffill_from_no_None)

lemma split_first_valid:
  "Some v \<in> set xs \<Longrightarrow> \<exists>n w rest. xs = replicate n None @ Some w # rest"
proof (induction xs)
  case Nil
  then show ?case by simp
next
  case (Cons x xs)
  show ?case
  proof (cases x)
    case None
    with Cons obtain n w rest where "xs = replicate n None @ Some w # rest"
      by auto
    with None have "x # xs = replicate (Suc n) None @ Some w # rest"
      by simp
    then show ?thesis by blast
  next
    case (Some w)
    then have "x # xs = replicate 0 None @ Some w # xs" by simp
    then show ?thesis by blast
  qed
qed

lemma fill_gaps_no_None:
  assumes "Some v \<in> set xs"
  shows "None \<notin> set (fill_gaps xs)"
proof -
  from split_first_valid [OF assms] obtain n w rest
    where xs: "xs = replicate n None @ Some w # rest" by blast
  have i: "interpolate 7 xs = replicate n None @ Some w # interp_from 7 (Some (w, 0)) rest"
    by (simp add: interpolate_def xs interp_lead)
  have f: "ffill (interpolate 7 xs)
             = replicate n None @ Some w # ffill_from (Some w) (interp_from 7 (Some (w, 0)) rest)"
    by (simp add: ffill_def i ffill_from_lead)
  let ?zs = "ffill_from (Some w) (interp_from 7 (Some (w, 0)) rest)"
  have z: "None \<notin> set (Some w # ?zs)"
    using ffill_from_Some_valid [of w] by simp
  have "fill_gaps xs = replicate n (Some w) @ bfill (Some w # ?zs)"
    by (simp add: fill_gaps_def f bfill_lead)
  also have "\<dots> = replicate n (Some w) @ Some w # ?zs"
    using bfill_no_None [OF z] by simp
  finally show ?thesis
    using z by auto
qed

lemma interp_from_split:
  "\<exists>P. length P = length pre
       \<and> interp_from l st (pre @ Some a # rest) = P @ Some a # interp_from l (Some (a, 0)) rest"
proof -
  let ?Q = "interp_from l st (pre @ [Some a])"
  have len: "length ?Q = Suc (length pre)"
    by (simp add: length_interp_from)
  have "?Q ! length pre = Some a"
    by (rule interp_from_keeps) simp_all
  with len have "?Q = take (length pre) ?Q @ [Some a]"
    by (metis lessI order_refl take_Suc_conv_app_nth take_all)
  then have "interp_from l st (pre @ Some a # rest)
               = take (length pre) ?Q @ Some a # interp_from l (Some (a, 0)) rest"
    by (simp add: interp_from_append_Some [of l st pre a rest])
  moreover have "length (take (length pre) ?Q) = length pre"
    using len by simp
  ultimately show ?thesis by blast
qed

lemma ffill_from_split:
  "\<exists>P. length P = length pre
       \<and> ffill_from p (pre @ Some a # rest) = P @ Some a # ffill_from (Some a) rest"
proof -
  let ?Q = "ffill_from p (pre @ [Some a])"
  have len: "length ?Q = Suc (length pre)"
    by (simp add: length_ffill_from)
  have "?Q ! length pre = Some a"
    by (rule ffill_from_keeps) simp_all
  with len have "?Q = take (length pre) ?Q @ [Some a]"
    by (metis lessI order_refl take_Suc_conv_app_nth take_all)
  then have "ffill_from p (pre @ Some a # rest)
               = take (length pre) ?Q @ Some a # ffill_from (Some a) rest"
    by (simp add: ffill_from_append_Some [of p pre a rest])
  moreover have "length (take (length pre) ?Q) = length pre"
    using len by simp
  ultimately show ?thesis by blast
qed

lemma ffill_after_valid:
  "\<exists>P. length P = length pre
       \<and> ffill (interpolate 7 (pre @ Some a # rest))
           = P @ Some a # ffill_from (Some a) (interp_from 7 (Some (a, 0)) rest)"
proof -
  from interp_from_split [of pre 7 None a rest] obtain P
    where P: "length P = length pre"
      and i: "interp_from 7 None (pre @ Some a # rest) = P @ Some a # interp_from 7 (Some (a, 0)) rest"
    by blast
  from ffill_from_split [of P None a "interp_from 7 (Some (a, 0)) rest"] obtain Q
    where Q: "length Q = length P"
      and f: "ffill_from None (P @ Some a # interp_from 7 (Some (a, 0)) rest)
                = Q @ Some a # ffill_from (Some a) (interp_from 7 (Some (a, 0)) rest)"
    by blast
  from P Q i f show ?thesis
    by (auto simp: ffill_def interpolate_def)
qed

lemma fill_gaps_after_valid:
  assumes "j < length rest"
    and "ffill_from (Some a) (interp_from 7 (Some (a, 0)) rest) ! j = Some v"
  shows "fill_gaps (pre @ Some a # rest) ! (Suc (length pre + j)) = Some v"
proof -
  from ffill_after_valid [of pre a rest] obtain P
    where P: "length P = length pre"
      and f: "ffill (interpolate 7 (pre @ Some a # rest))
                = P @ Some a # ffill_from (Some a) (interp_from 7 (Some (a, 0)) rest)"
    by blast
  let ?F = "ffill (interpolate 7 (pre @ Some a # rest))"
  have len: "Suc (length pre + j) < length ?F"
    using assms(1) P by (simp add: f length_ffill_from length_interp_from)
  have "?F ! (Suc (length pre + j)) = Some v"
    using assms(2) P by (simp add: f nth_append)
  with len show ?thesis
    unfolding fill_gaps_def by (rule bfill_keeps)
qed

lemma ffill_gap_nth:
  assumes "j < n"
  shows "ffill_from (Some a) (interp_from 7 (Some (a, 0)) (replicate n None @ Some b # post)) ! j
           = Some ((b - a) / real (Suc n) * real (min (Suc j) 7) + a)"
  using assms
proof (induction j)
  case 0
  let ?G = "interp_from 7 (Some (a, 0)) (replicate n None @ Some b # post)"
  from 0 have "?G ! 0 = Some ((b - a) / real (Suc n) * real (Suc 0) + a)"
    using interp_gap_nth [of 0 n 7 a 0 b post] by simp
  moreover have "0 < length ?G" using 0 by (simp add: length_interp_from)
  ultimately have "ffill_from (Some a) ?G ! 0 = Some ((b - a) / real (Suc n) * real (Suc 0) + a)"
    using ffill_from_keeps by blast
  then show ?case by simp
next
  case (Suc j)
  let ?G = "interp_from 7 (Some (a, 0)) (replicate n None @ Some b # post)"
  have len: "Suc j < length ?G" using Suc.prems by (simp add: length_interp_from)
  have g: "?G ! Suc j = (if 7 < Suc (Suc j) then None
                         else Some ((b - a) / real (Suc n) * real (Suc (Suc j)) + a))"
    using interp_gap_nth [of "Suc j" n 7 a 0 b post] Suc.prems by simp
  show ?case
  proof (cases "7 < Suc (Suc j)")
    case True
    with g have "?G ! Suc j = None" by simp
    with len have "ffill_from (Some a) ?G ! Suc j = ffill_from (Some a) ?G ! j"
      by (rule ffill_from_step)
    also have "\<dots> = Some ((b - a) / real (Suc n) * real (min (Suc j) 7) + a)"
      using Suc by simp
    also have "min (Suc j) 7 = min (Suc (Suc j)) 7"
      using True by simp
    finally show ?thesis .
  next
    case False
    with g have "?G ! Suc j = Some ((b - a) / real (Suc n) * real (Suc (Suc j)) + a)" by simp
    with len have "ffill_from (Some a) ?G ! Suc j = Some ((b - a) / real (Suc n) * real (Suc (Suc j)) + a)"
      by (rule ffill_from_keeps)
    with False show ?thesis by (simp add: min_def)
  qed
qed

lemma fill_gaps_interior:
  assumes "0 < k" and "k \<le> n"
  shows "fill_gaps (pre @ Some a # replicate n None @ Some b # post) ! (length pre + k)
           = Some (a + (b - a) * real (min k 7) / real (n + 1))"
proof -
  from assms obtain j where k: "k = Suc j" and j: "j < n"
    by (cases k) simp_all
  have "j < length (replicate n None @ Some b # post)" using j by simp
  moreover from ffill_gap_nth [OF j]
  have "ffill_from (Some a) (interp_from 7 (Some (a, 0)) (replicate n None @ Some b # post)) ! j
           = Some (a + (b - a) * real (min k 7) / real (n + 1))"
    by (simp add: k add.commute)
  ultimately have "fill_gaps (pre @ Some a # replicate n None @ Some b # post) ! Suc (length pre + j)
           = Some (a + (b - a) * real (min k 7) / real (n + 1))"
    by (rule fill_gaps_after_valid)
  then show ?thesis by (simp add: k)
qed

lemma ffill_interior:
  assumes "0 < k" and "k \<le> n"
  shows "ffill (interpolate 7 (pre @ Some a # replicate n None @ Some b # post)) ! (length pre + k)
           = Some (a + (b - a) * real (min k 7) / real (n + 1))"
proof -
  from assms obtain j where k: "k = Suc j" and j: "j < n"
    by (cases k) simp_all
  from ffill_after_valid [of pre a "replicate n None @ Some b # post"] obtain P
    where P: "length P = length pre"
      and f: "ffill (interpolate 7 (pre @ Some a # replicate n None @ Some b # post))
                = P @ Some a # ffill_from (Some a)
                    (interp_from 7 (Some (a, 0)) (replicate n None @ Some b # post))"
    by blast
  from ffill_gap_nth [OF j]
  have "ffill_from (Some a) (interp_from 7 (Some (a, 0)) (replicate n None @ Some b # post)) ! j
           = Some (a + (b - a) * real (min k 7) / real (n + 1))"
    by (simp add: k add.commute)
  with P show ?thesis
    by (simp add: f k nth_append)
qed

lemma fill_gaps_trailing:
  assumes "i < n"
  shows "fill_gaps (pre @ Some a # replicate n None) ! (length pre + 1 + i) = Some a"
proof -
  have "ffill_from (Some a) (interp_from 7 (Some (a, 0)) (replicate n None))
          = replicate n (Some a)"
    using ffill_from_Some_const [OF interp_tail_set [of 7 a 0 n]]
    by (simp add: length_interp_from)
  with assms have "ffill_from (Some a) (interp_from 7 (Some (a, 0)) (replicate n None)) ! i = Some a"
    by simp
  with assms have "fill_gaps (pre @ Some a # replicate n None) ! Suc (length pre + i) = Some a"
    using fill_gaps_after_valid [of i "replicate n None" a a pre] by simp
  then show ?thesis by simp
qed

lemma fill_gaps_leading:
  assumes "i < n"
  shows "fill_gaps (replicate n None @ Some a # post) ! i = Some a"
proof -
  have "ffill (interpolate 7 (replicate n None @ Some a # post))
          = replicate n None @ Some a # ffill_from (Some a) (interp_from 7 (Some (a, 0)) post)"
    by (simp add: ffill_def interpolate_def interp_lead ffill_from_lead)
  then have "fill_gaps (replicate n None @ Some a # post)
          = replicate n (Some a) @ bfill (Some a # ffill_from (Some a) (interp_from 7 (Some (a, 0)) post))"
    by (simp add: fill_gaps_def bfill_lead)
  with assms show ?thesis
    by (simp add: nth_append)
qed

subsection \<open>The table after cleaning\<close>

lemma length_col: "length (col df c) = length (rows df)"
  by (simp add: col_def)

lemma length_sort_values_date: "length (sort_values_date rs) = length rs"
  by (simp add: sort_values_date_def sum_length_filter_compl)

lemma set_sort_values_date: "set (sort_values_date rs) = set rs"
  by (auto simp: sort_values_date_def)

lemma length_rows_coerce_col: "length (rows (coerce_col c df)) = length (rows df)"
  by (simp add: coerce_col_def length_rows_set_col length_col)

lemma length_rows_fill_col: "length (rows (fill_col c df)) = length (rows df)"
  by (simp add: fill_col_def length_rows_set_col length_col length_fill_gaps)

lemma col_coerce_col:
  "col (coerce_col c df) d = (if d = c then map to_numeric (col df c) else col df d)"
  by (simp add: coerce_col_def col_set_col length_col)

lemma col_fill_col:
  "col (fill_col c df) d
     = (if d = c then map of_float (fill_gaps (map as_float (col df c))) else col df d)"
  by (simp add: fill_col_def col_set_col length_col length_fill_gaps)

lemma columns_coerce_col: "c \<in> set (columns df) \<Longrightarrow> columns (coerce_col c df) = columns df"
  by (simp add: coerce_col_def columns_set_col)

lemma columns_fill_col: "c \<in> set (columns df) \<Longrightarrow> columns (fill_col c df) = columns df"
  by (simp add: fill_col_def columns_set_col)

lemma length_rows_clean: "length (rows (clean df)) = length (rows df)"
  by (simp add: clean_def Let_def length_rows_fill_col length_rows_coerce_col length_sort_values_date)

lemma columns_clean: "required \<subseteq> set (columns df) \<Longrightarrow> columns (clean df) = columns df"
  by (simp add: clean_def Let_def required_def columns_fill_col columns_coerce_col)

lemma col_rows_update: "col (df\<lparr>rows := rs\<rparr>) c = map (\<lambda>r. r c) rs"
  by (simp add: col_def)

lemma col_clean_price:
  assumes "c \<in> price_columns"
  shows "col (clean df) c = map of_float (fill_gaps (coerced df c))"
proof -
  from assms consider "c = ''crude''" | "c = ''rbob''" | "c = ''ulsd''"
    by (auto simp: price_columns_def)
  then show ?thesis
    by cases (simp_all add: clean_def Let_def col_fill_col col_coerce_col coerced_def
        col_rows_update comp_def)
qed

lemma col_clean_other:
  assumes "c \<notin> price_columns"
  shows "col (clean df) c = map (\<lambda>r. r c) (sort_values_date (rows df))"
proof -
  from assms have "c \<noteq> ''crude''" "c \<noteq> ''rbob''" "c \<noteq> ''ulsd''"
    by (simp_all add: price_columns_def)
  then show ?thesis
    by (simp add: clean_def Let_def col_fill_col col_coerce_col col_rows_update)
qed

lemma load_price_history_clean:
  "required \<subseteq> set (columns df) \<Longrightarrow> load_price_history df None = Inr (clean df)"
  by (simp add: load_price_history_extend extend_to_def)

lemma extend_to_cases:
  "extend_to today df = Inr df
   \<or> (\<exists>t m. today = Some t \<and> max_date (rows df) = Some m \<and> m < t \<and> rows df \<noteq> []
        \<and> extend_to today df = Inr (df\<lparr>rows := rows df @ [(last (rows df))(''date'' := Stamp t)]\<rparr>))
   \<or> (rows df = [] \<and> extend_to today df = Inl TypeError)"
proof (cases "rows df")
  case Nil
  then show ?thesis
    by (simp add: extend_to_def split: option.splits)
next
  case (Cons r rs)
  then show ?thesis
    by (auto simp: extend_to_def split: option.splits)
qed

lemma col_extend_to_nth:
  assumes "extend_to today df = Inr out" and "i < length (rows df)"
  shows "col out c ! i = col df c ! i"
  using extend_to_cases [of today df] assms
  by (auto simp: col_def nth_append)

lemma col_of_load_nth:
  assumes "required \<subseteq> set (columns df)" and "i < length (rows df)"
  shows "col_of (load_price_history df today) c ! i = col (clean df) c ! i"
proof -
  from assms(2) have i: "i < length (rows (clean df))"
    by (simp add: length_rows_clean)
  then have "rows (clean df) \<noteq> []"
    by auto
  then obtain out where o: "extend_to today (clean df) = Inr out"
    using extend_to_returns by blast
  from o i have "col out c ! i = col (clean df) c ! i"
    by (rule col_extend_to_nth)
  with o assms(1) show ?thesis
    by (simp add: col_of_def load_price_history_extend)
qed

lemma length_coerced: "length (coerced df c) = length (rows df)"
  by (simp add: coerced_def length_sort_values_date)

lemma col_of_load_price_nth:
  assumes "required \<subseteq> set (columns df)" and "c \<in> price_columns"
    and "i < length (coerced df c)" and "fill_gaps (coerced df c) ! i = Some v"
  shows "col_of (load_price_history df today) c ! i = Num v"
proof -
  from assms(3) have i: "i < length (rows df)"
    by (simp add: length_coerced)
  with assms(1) have "col_of (load_price_history df today) c ! i = col (clean df) c ! i"
    by (rule col_of_load_nth)
  also have "\<dots> = of_float (fill_gaps (coerced df c) ! i)"
    using assms(2,3) by (simp add: col_clean_price length_fill_gaps)
  finally show ?thesis
    using assms(4) by (simp add: of_float_def)
qed

subsection \<open>Gaps\<close>

text \<open>
  C7. Let \<open>c\<close> be one of crude, rbob, ulsd in a table that has the required columns,
  and consider the column after sorting and coercion.
  \<^item> An interior run of \<open>n \<le> 7\<close> missing values between the valid values \<open>a\<close> and
    \<open>b\<close> is filled by linear interpolation: the \<open>k\<close>-th position of the run gets
    \<open>a + (b - a) * k / (n + 1)\<close>.
  \<^item> A leading run of missing values is filled with the first valid value after it.
  \<^item> A trailing run of missing values is filled with the last valid value before it.
  \<^item> A single missing value between 10 and 20 becomes 15.
\<close>

theorem gap_filling:
  assumes "required \<subseteq> set (columns df)" and "c \<in> price_columns"
  shows "(coerced df c = pre @ Some a # replicate n None @ Some b # post \<and> 0 < k \<and> k \<le> n \<and> n \<le> 7
            \<longrightarrow> col_of (load_price_history df today) c ! (length pre + k)
                  = Num (a + (b - a) * real k / real (n + 1)))
         \<and> (coerced df c = replicate m None @ Some a1 # post1 \<and> i < m
            \<longrightarrow> col_of (load_price_history df today) c ! i = Num a1)
         \<and> (coerced df c = pre2 @ Some a2 # replicate m2 None \<and> i2 < m2
            \<longrightarrow> col_of (load_price_history df today) c ! (length pre2 + 1 + i2) = Num a2)
         \<and> fill_gaps [Some 10, None, Some 20] = [Some 10, Some 15, Some 20]"
proof (intro conjI impI)
  assume h: "coerced df c = pre @ Some a # replicate n None @ Some b # post \<and> 0 < k \<and> k \<le> n \<and> n \<le> 7"
  then have "min k 7 = k" by simp
  with h have "fill_gaps (coerced df c) ! (length pre + k) = Some (a + (b - a) * real k / real (n + 1))"
    using fill_gaps_interior [of k n pre a b post] by simp
  moreover from h have "length pre + k < length (coerced df c)" by simp
  ultimately show "col_of (load_price_history df today) c ! (length pre + k)
                  = Num (a + (b - a) * real k / real (n + 1))"
    using assms col_of_load_price_nth by blast
next
  assume h: "coerced df c = replicate m None @ Some a1 # post1 \<and> i < m"
  then have "fill_gaps (coerced df c) ! i = Some a1"
    using fill_gaps_leading [of i m a1 post1] by simp
  moreover from h have "i < length (coerced df c)" by simp
  ultimately show "col_of (load_price_history df today) c ! i = Num a1"
    using assms col_of_load_price_nth by blast
next
  assume h: "coerced df c = pre2 @ Some a2 # replicate m2 None \<and> i2 < m2"
  then have "fill_gaps (coerced df c) ! (length pre2 + 1 + i2) = Some a2"
    using fill_gaps_trailing [of i2 m2 pre2 a2] by simp
  moreover from h have "length pre2 + 1 + i2 < length (coerced df c)" by simp
  ultimately show "col_of (load_price_history df today) c ! (length pre2 + 1 + i2) = Num a2"
    using assms col_of_load_price_nth by blast
next
  show "fill_gaps [Some 10, None, Some 20] = [Some 10, Some 15, Some 20]"
    by (simp add: fill_gaps_def bfill_def ffill_def interpolate_def)
qed

lemma mk_row_simps:
  "mk_row d c r u ''date'' = d" "mk_row d c r u ''crude'' = c"
  "mk_row d c r u ''rbob'' = r" "mk_row d c r u ''ulsd'' = u"
  by (simp_all add: mk_row_def)

lemma dated_mk_row: "dated (mk_row (Stamp d) c r u)"
  by (simp add: dated_def stamp_of_def mk_row_simps)

lemma stamp_key_mk_row: "stamp_key (mk_row (Stamp d) c r u) = d"
  by (simp add: stamp_key_def mk_row_simps)

lemma short_gaps_complete: "required \<subseteq> set (columns short_gaps)"
  by (simp add: required_def short_gaps_def price_header_def)

lemma short_gaps_sorted:
  "sort_values_date (rows short_gaps) =
     [mk_row (Stamp 1) Missing (Num 2) (Num 3),
      mk_row (Stamp 2) (Num 10) (Num 2) (Num 3),
      mk_row (Stamp 3) (Txt ''n/a'') (Num 2) (Num 3),
      mk_row (Stamp 4) (Num 20) (Num 2) (Num 3),
      mk_row (Stamp 5) Missing (Num 2) (Num 3)]"
  by (simp add: short_gaps_def sort_values_date_def dated_mk_row stamp_key_mk_row)

lemma short_gaps_coerced:
  "coerced short_gaps ''crude'' = [None, Some 10, None, Some 20, None]"
  by (simp add: coerced_def short_gaps_sorted mk_row_simps to_numeric_def as_float_def)

text \<open>
  The theorem at the crude column of \<open>short_gaps\<close>, which is missing, 10, missing, 20,
  missing after sorting and coercion.
\<close>

theorem gap_filling_witness:
  "col_of (load_price_history short_gaps (Some 9)) ''crude'' ! 2 = Num 15
   \<and> col_of (load_price_history short_gaps (Some 9)) ''crude'' ! 0 = Num 10
   \<and> col_of (load_price_history short_gaps (Some 9)) ''crude'' ! 4 = Num 20"
proof -
  have c: "''crude'' \<in> price_columns"
    by (simp add: price_columns_def)
  have "coerced short_gaps ''crude'' = [None] @ Some 10 # replicate 1 None @ Some 20 # [None]"
    and "coerced short_gaps ''crude'' = replicate 1 None @ Some 10 # [None, Some 20, None]"
    and "coerced short_gaps ''crude'' = [None, Some 10, None] @ Some 20 # replicate 1 None"
    by (simp_all add: short_gaps_coerced)
  with gap_filling [OF short_gaps_complete c, of "[None]" 10 1 20 "[None]" 1 "Some 9"
      1 10 "[None, Some 20, None]" 0 "[None, Some 10, None]" 20 1 0]
  show ?thesis by (simp add: eval_nat_numeral)
qed

text \<open>
  C1 (as amended). Let \<open>c\<close> be one of crude, rbob, ulsd in a table that has the
  required columns, and consider in the column after sorting and coercion an interior
  run of \<open>n > 7\<close> missing values between two valid values. In the table returned,
  every position of the run holds a number, and it is the number that
  \<^verbatim>\<open>interpolate(limit=7)\<close> followed by \<^verbatim>\<open>ffill()\<close> puts there: the backward fill
  changes nothing in the run. Every position of the run from the 7th on holds the
  same number as the 7th; in a 10-row gap, positions 8, 9 and 10 equal position 7.
\<close>

theorem long_gap_filling:
  assumes "required \<subseteq> set (columns df)" and "c \<in> price_columns"
    and "coerced df c = pre @ Some a # replicate n None @ Some b # post"
    and "7 < n" and "0 < k" and "k \<le> n"
  shows "(\<exists>v. col_of (load_price_history df today) c ! (length pre + k) = Num v
              \<and> ffill (interpolate 7 (coerced df c)) ! (length pre + k) = Some v)
         \<and> (7 \<le> k \<longrightarrow>
               col_of (load_price_history df today) c ! (length pre + k)
                 = col_of (load_price_history df today) c ! (length pre + 7))"
proof -
  have len: "length pre + j < length (coerced df c)" if "j \<le> n" for j
    using that assms(3) by simp
  have val: "col_of (load_price_history df today) c ! (length pre + j)
               = Num (a + (b - a) * real (min j 7) / real (n + 1))"
    if "0 < j" and "j \<le> n" for j
  proof -
    from that assms(3)
    have "fill_gaps (coerced df c) ! (length pre + j)
            = Some (a + (b - a) * real (min j 7) / real (n + 1))"
      using fill_gaps_interior [of j n pre a b post] by simp
    with len [OF that(2)] show ?thesis
      using assms(1,2) col_of_load_price_nth by blast
  qed
  have "ffill (interpolate 7 (coerced df c)) ! (length pre + k)
          = Some (a + (b - a) * real (min k 7) / real (n + 1))"
    using assms(3,5,6) ffill_interior [of k n pre a b post] by simp
  with val [OF assms(5,6)]
  have "\<exists>v. col_of (load_price_history df today) c ! (length pre + k) = Num v
              \<and> ffill (interpolate 7 (coerced df c)) ! (length pre + k) = Some v"
    by simp
  moreover have "col_of (load_price_history df today) c ! (length pre + k)
                 = col_of (load_price_history df today) c ! (length pre + 7)" if "7 \<le> k"
  proof -
    from assms(4) have "(0::nat) < 7" and "7 \<le> n" by simp_all
    from val [OF this] val [OF assms(5,6)] that show ?thesis
      by simp
  qed
  ultimately show ?thesis by blast
qed

lemma long_gap_complete: "required \<subseteq> set (columns long_gap)"
  by (simp add: required_def long_gap_def price_header_def)

lemma long_gap_sorted: "sort_values_date (rows long_gap) = rows long_gap"
  by (simp add: long_gap_def sort_values_date_def dated_mk_row stamp_key_mk_row)

lemma long_gap_coerced:
  "coerced long_gap ''rbob'' = Some 0 # replicate 10 None @ [Some 11]"
  unfolding coerced_def long_gap_sorted
  by (simp add: long_gap_def mk_row_simps to_numeric_def as_float_def eval_nat_numeral)

text \<open>The theorem at the 10-row gap of rbob in \<open>long_gap\<close>, between 0 and 11.\<close>

theorem long_gap_filling_witness:
  "col_of (load_price_history long_gap None) ''rbob'' ! 9
     = col_of (load_price_history long_gap None) ''rbob'' ! 7
   \<and> (\<exists>v. col_of (load_price_history long_gap None) ''rbob'' ! 9 = Num v
          \<and> ffill (interpolate 7 (coerced long_gap ''rbob'')) ! 9 = Some v)"
proof -
  have c: "''rbob'' \<in> price_columns"
    by (simp add: price_columns_def)
  have g: "coerced long_gap ''rbob'' = [] @ Some 0 # replicate 10 None @ Some 11 # []"
    by (simp add: long_gap_coerced)
  have "(7::nat) < 10" "(0::nat) < 9" "(9::nat) \<le> 10"
    by simp_all
  note th = long_gap_filling [OF long_gap_complete c g this, of None]
  from th [simplified] show ?thesis by blast
qed

lemma long_gap_filled:
  "fill_gaps (Some 0 # replicate 10 None @ [Some 11])
     = map Some [0, 1, 2, 3, 4, 5, 6, 7, 7, 7, 7, 11]"
  by (simp add: fill_gaps_def bfill_def ffill_def interpolate_def eval_nat_numeral)

text \<open>
  C1 as stated has the first five positions of a 10-row gap equal to the value before
  the gap and the last five equal to the value after it. For rbob = 0, ten missing
  values, 11, the loader returns 0, 1, 2, 3, 4, 5, 6, 7, 7, 7, 7, 11: positions 6 to
  10 do not hold 11.
\<close>

theorem long_gap_counterexample:
  "col_of (load_price_history long_gap None) ''rbob''
     = map Num [0, 1, 2, 3, 4, 5, 6, 7, 7, 7, 7, 11]
   \<and> col_of (load_price_history long_gap None) ''rbob''
     \<noteq> map Num [0, 0, 0, 0, 0, 0, 11, 11, 11, 11, 11, 11]"
proof -
  have "''rbob'' \<in> price_columns"
    by (simp add: price_columns_def)
  then have "col (clean long_gap) ''rbob'' = map of_float (fill_gaps (coerced long_gap ''rbob''))"
    by (rule col_clean_price)
  then have "col (clean long_gap) ''rbob'' = map Num [0, 1, 2, 3, 4, 5, 6, 7, 7, 7, 7, 11]"
    by (simp add: long_gap_coerced long_gap_filled of_float_def)
  then have "col_of (load_price_history long_gap None) ''rbob''
               = map Num [0, 1, 2, 3, 4, 5, 6, 7, 7, 7, 7, 11]"
    by (simp add: load_price_history_clean [OF long_gap_complete] col_of_def)
  then show ?thesis by simp
qed

subsection \<open>The reference date\<close>

lemma set_map_filter_stamps:
  "set (List.map_filter (\<lambda>r. stamp_of (r ''date'')) rs) = {d. \<exists>r\<in>set rs. r ''date'' = Stamp d}"
proof (induction rs)
  case Nil
  then show ?case by simp
next
  case (Cons r rs)
  then show ?case
    by (cases "r ''date''") (auto simp: stamp_of_def)
qed

lemma max_date_Max:
  "max_date rs =
     (if {d. \<exists>r\<in>set rs. r ''date'' = Stamp d} = {} then None
      else Some (Max {d. \<exists>r\<in>set rs. r ''date'' = Stamp d}))"
proof (cases "List.map_filter (\<lambda>r. stamp_of (r ''date'')) rs")
  case Nil
  with set_map_filter_stamps [of rs] show ?thesis
    by (simp add: max_date_def)
next
  case (Cons d ds)
  with set_map_filter_stamps [of rs]
  have s: "{d. \<exists>r\<in>set rs. r ''date'' = Stamp d} = set (d # ds)"
    by simp
  have "fold max ds d = Max (set (d # ds))"
    by (simp only: Max.set_eq_fold)
  with Cons show ?thesis
    unfolding s by (simp add: max_date_def)
qed

lemma max_date_cong:
  assumes "(\<lambda>r. r ''date'') ` set rs = (\<lambda>r. r ''date'') ` set rs'"
  shows "max_date rs = max_date rs'"
proof -
  have "\<And>qs. {d. \<exists>r\<in>set qs. r ''date'' = Stamp d} = {d. Stamp d \<in> (\<lambda>r. r ''date'') ` set qs}"
    by (auto simp: image_iff) metis
  with assms show ?thesis
    by (simp add: max_date_Max)
qed

lemma max_date_ge:
  assumes "max_date rs = Some m" and "r \<in> set rs" and "r ''date'' = Stamp d"
  shows "d \<le> m"
proof -
  let ?S = "{d. \<exists>r\<in>set rs. r ''date'' = Stamp d}"
  have "?S \<subseteq> set (List.map_filter (\<lambda>r. stamp_of (r ''date'')) rs)"
    by (simp add: set_map_filter_stamps)
  then have fin: "finite ?S"
    by (rule finite_subset) simp
  from assms(2,3) have d: "d \<in> ?S"
    by blast
  with assms(1) have "m = Max ?S"
    by (auto simp: max_date_Max split: if_splits)
  with fin d show ?thesis by simp
qed

lemma dates_clean:
  "map (\<lambda>r. r ''date'') (rows (clean df)) = map (\<lambda>r. r ''date'') (sort_values_date (rows df))"
proof -
  have "''date'' \<notin> price_columns"
    by (simp add: price_columns_def)
  from col_clean_other [OF this] show ?thesis
    by (simp add: col_def)
qed

lemma max_date_clean: "max_date (rows (clean df)) = max_date (rows df)"
proof -
  have "set (map (\<lambda>r. r ''date'') (rows (clean df))) = set (map (\<lambda>r. r ''date'') (rows df))"
    unfolding dates_clean by (simp add: set_sort_values_date)
  then show ?thesis
    by (intro max_date_cong) simp
qed

lemma rows_clean_nonempty: "max_date (rows df) = Some m \<Longrightarrow> rows (clean df) \<noteq> []"
proof -
  assume "max_date (rows df) = Some m"
  then have "rows df \<noteq> []"
    by (auto simp: max_date_def)
  then have "length (rows (clean df)) \<noteq> 0"
    by (simp add: length_rows_clean)
  then show ?thesis by auto
qed

lemma load_price_history_later:
  assumes "required \<subseteq> set (columns df)" and "max_date (rows df) = Some m" and "m < t"
  shows "load_price_history df (Some t)
           = Inr ((clean df)\<lparr>rows := rows (clean df) @ [(last (rows (clean df)))(''date'' := Stamp t)]\<rparr>)"
proof -
  have m: "max_date (rows (clean df)) = Some m"
    using assms(2) by (simp add: max_date_clean)
  have "rows (clean df) \<noteq> []"
    using assms(2) by (rule rows_clean_nonempty)
  then have "extend_to (Some t) (clean df)
           = Inr ((clean df)\<lparr>rows := rows (clean df) @ [(last (rows (clean df)))(''date'' := Stamp t)]\<rparr>)"
    using m assms(3) by (simp add: extend_to_nonempty)
  with assms(1) show ?thesis
    by (simp add: load_price_history_extend)
qed

lemma load_price_history_not_later:
  assumes "required \<subseteq> set (columns df)" and "max_date (rows df) = Some m" and "t \<le> m"
  shows "load_price_history df (Some t) = Inr (clean df)"
proof -
  have m: "max_date (rows (clean df)) = Some m"
    using assms(2) by (simp add: max_date_clean)
  have "rows (clean df) \<noteq> []"
    using assms(2) by (rule rows_clean_nonempty)
  then have "extend_to (Some t) (clean df) = Inr (clean df)"
    using m assms(3) by (simp add: extend_to_nonempty)
  with assms(1) show ?thesis
    by (simp add: load_price_history_extend)
qed

text \<open>
  C6. For a table that has the required columns: without a reference date the loader
  returns the cleaned table. With a reference date \<open>t\<close> strictly later than the
  maximum date \<open>m\<close> of the table, it returns one row more: the rows before the last
  are those of the cleaned table, the last row has the date \<open>t\<close>, and in every
  other column (crude, rbob, ulsd among them) the value of the last row of the cleaned
  table. With \<open>t \<le> m\<close> no row is added.
\<close>

theorem reference_date_extension:
  assumes "required \<subseteq> set (columns df)"
  shows "load_price_history df None = Inr (clean df)
         \<and> (max_date (rows df) = Some m \<and> m < t \<longrightarrow>
              (\<exists>out. load_price_history df (Some t) = Inr out
                 \<and> columns out = columns (clean df)
                 \<and> length (rows out) = Suc (length (rows (clean df)))
                 \<and> butlast (rows out) = rows (clean df)
                 \<and> last (rows out) ''date'' = Stamp t
                 \<and> (\<forall>c. c \<noteq> ''date'' \<longrightarrow> last (rows out) c = last (rows (clean df)) c)))
         \<and> (max_date (rows df) = Some m \<and> t \<le> m \<longrightarrow> load_price_history df (Some t) = Inr (clean df))"
proof (intro conjI impI)
  show "load_price_history df None = Inr (clean df)"
    using assms by (rule load_price_history_clean)
next
  assume "max_date (rows df) = Some m \<and> m < t"
  then have "load_price_history df (Some t)
           = Inr ((clean df)\<lparr>rows := rows (clean df) @ [(last (rows (clean df)))(''date'' := Stamp t)]\<rparr>)"
    using assms load_price_history_later by blast
  then show "\<exists>out. load_price_history df (Some t) = Inr out
                 \<and> columns out = columns (clean df)
                 \<and> length (rows out) = Suc (length (rows (clean df)))
                 \<and> butlast (rows out) = rows (clean df)
                 \<and> last (rows out) ''date'' = Stamp t
                 \<and> (\<forall>c. c \<noteq> ''date'' \<longrightarrow> last (rows out) c = last (rows (clean df)) c)"
    by simp
next
  assume "max_date (rows df) = Some m \<and> t \<le> m"
  then show "load_price_history df (Some t) = Inr (clean df)"
    using assms load_price_history_not_later by blast
qed

lemma short_gaps_max_date: "max_date (rows short_gaps) = Some 5"
  by (simp add: max_date_def short_gaps_def mk_row_simps stamp_of_def)

lemma short_gaps_clean_crude:
  "col (clean short_gaps) ''crude'' = [Num 10, Num 10, Num 15, Num 20, Num 20]"
proof -
  have "''crude'' \<in> price_columns"
    by (simp add: price_columns_def)
  then have "col (clean short_gaps) ''crude'' = map of_float (fill_gaps (coerced short_gaps ''crude''))"
    by (rule col_clean_price)
  then show ?thesis
    by (simp add: short_gaps_coerced fill_gaps_def bfill_def ffill_def interpolate_def of_float_def)
qed

text \<open>The theorem at \<open>short_gaps\<close>, whose maximum date is 5, with the reference dates 9 and 4.\<close>

theorem reference_date_extension_witness:
  "length (rows_of (load_price_history short_gaps (Some 9))) = 6
   \<and> length (rows_of (load_price_history short_gaps None)) = 5
   \<and> last (rows_of (load_price_history short_gaps (Some 9))) ''date'' = Stamp 9
   \<and> last (rows_of (load_price_history short_gaps (Some 9))) ''crude'' = Num 20
   \<and> load_price_history short_gaps (Some 4) = load_price_history short_gaps None"
proof -
  note th = reference_date_extension [OF short_gaps_complete]
  have n: "load_price_history short_gaps None = Inr (clean short_gaps)"
    using th by blast
  have l: "length (rows (clean short_gaps)) = 5"
    by (simp add: length_rows_clean) (simp add: short_gaps_def)
  have "last (col (clean short_gaps) ''crude'') = Num 20"
    by (simp add: short_gaps_clean_crude)
  moreover have "rows (clean short_gaps) \<noteq> []"
    using l by auto
  ultimately have c: "last (rows (clean short_gaps)) ''crude'' = Num 20"
    by (simp add: col_def last_map)
  have "max_date (rows short_gaps) = Some 5 \<and> (5::int) < 9"
    by (simp add: short_gaps_max_date)
  with th [of 5 9] obtain out where o: "load_price_history short_gaps (Some 9) = Inr out"
    and "length (rows out) = Suc (length (rows (clean short_gaps)))"
    and "last (rows out) ''date'' = Stamp 9"
    and "last (rows out) ''crude'' = last (rows (clean short_gaps)) ''crude''"
    by auto
  with l c have "length (rows_of (load_price_history short_gaps (Some 9))) = 6
   \<and> last (rows_of (load_price_history short_gaps (Some 9))) ''date'' = Stamp 9
   \<and> last (rows_of (load_price_history short_gaps (Some 9))) ''crude'' = Num 20"
    by (simp add: rows_of_def)
  moreover have "max_date (rows short_gaps) = Some 5 \<and> (4::int) \<le> 5"
    by (simp add: short_gaps_max_date)
  with th [of 5 4] have "load_price_history short_gaps (Some 4) = Inr (clean short_gaps)"
    by blast
  ultimately show ?thesis
    using n l by (simp add: rows_of_def)
qed

subsection \<open>Order and completeness\<close>

lemma col_of_rows_of: "col_of res c = map (\<lambda>r. r c) (rows_of res)"
  by (simp add: col_of_def rows_of_def col_def split: sum.splits)

lemma rows_of_load_cases:
  assumes "required \<subseteq> set (columns df)"
  shows "rows_of (load_price_history df today) = rows (clean df)
         \<or> (\<exists>t m. max_date (rows (clean df)) = Some m \<and> m < t \<and> rows (clean df) \<noteq> []
               \<and> rows_of (load_price_history df today)
                   = rows (clean df) @ [(last (rows (clean df)))(''date'' := Stamp t)])
         \<or> rows_of (load_price_history df today) = []"
  using extend_to_cases [of today "clean df"] assms
  by (auto simp: load_price_history_extend rows_of_def)

lemma stamp_key_date: "r ''date'' = Stamp d \<Longrightarrow> stamp_key r = d"
  by (simp add: stamp_key_def)

lemma dated_iff: "dated r = (\<exists>d. r ''date'' = Stamp d)"
  by (cases "r ''date''") (simp_all add: dated_def stamp_of_def)

lemma sort_values_date_all_dated:
  "\<forall>r\<in>set rs. dated r \<Longrightarrow> sort_values_date rs = sort_key stamp_key rs"
  by (simp add: sort_values_date_def)

lemma map_stamp_key_clean:
  "map stamp_key (rows (clean df)) = map stamp_key (sort_values_date (rows df))"
proof -
  have "\<And>rs. map stamp_key rs = map (\<lambda>c. case c of Stamp d \<Rightarrow> d | _ \<Rightarrow> 0) (map (\<lambda>r. r ''date'') rs)"
    by (simp add: stamp_key_def)
  then show ?thesis
    by (metis dates_clean)
qed

lemma dated_clean:
  assumes "\<forall>r\<in>set (rows df). dated r" and "r \<in> set (rows (clean df))"
  shows "dated r"
proof -
  from assms(2) have "r ''date'' \<in> set (map (\<lambda>r. r ''date'') (rows (clean df)))"
    by simp
  then have "r ''date'' \<in> (\<lambda>r. r ''date'') ` set (rows df)"
    unfolding dates_clean by (simp add: set_sort_values_date)
  then obtain q where "q \<in> set (rows df)" and "r ''date'' = q ''date''"
    by auto
  with assms(1) show ?thesis
    by (auto simp: dated_iff)
qed

lemma sorted_clean:
  assumes "\<forall>r\<in>set (rows df). dated r"
  shows "sorted (map stamp_key (rows (clean df)))"
  unfolding map_stamp_key_clean sort_values_date_all_dated [OF assms]
  by (rule sorted_sort_key)

lemma valid_clean:
  assumes "c \<in> price_columns" and "Num x \<in> set (col df c)" and "v \<in> set (col (clean df) c)"
  shows "\<exists>y. v = Num y"
proof -
  from assms(2) obtain r where r: "r \<in> set (rows df)" and "r c = Num x"
    by (auto simp: col_def)
  then have "as_float (to_numeric (r c)) = Some x"
    by (simp add: to_numeric_def as_float_def)
  with r have "Some x \<in> set (coerced df c)"
    by (force simp: coerced_def set_sort_values_date)
  then have "None \<notin> set (fill_gaps (coerced df c))"
    by (rule fill_gaps_no_None)
  moreover from assms(1,3) obtain w where "w \<in> set (fill_gaps (coerced df c))" and "v = of_float w"
    by (auto simp: col_clean_price)
  ultimately show ?thesis
    by (cases w) (auto simp: of_float_def)
qed

text \<open>
  C8. For every valid input table (the required columns are present and every row has
  a date): the loader returns a table when no reference date is given or the table
  has a row; the rows of the table returned are in non-decreasing order of date and
  each has a date; and each of the columns crude, rbob, ulsd that had at least one
  cell that coerces to a number holds a number in every row of the table returned.
\<close>

theorem loaded_table_sorted_complete:
  assumes "required \<subseteq> set (columns df)" and "\<forall>r\<in>set (rows df). dated r"
  shows "(today = None \<or> rows df \<noteq> [] \<longrightarrow> (\<exists>out. load_price_history df today = Inr out))
         \<and> sorted (map stamp_key (rows_of (load_price_history df today)))
         \<and> (\<forall>r\<in>set (rows_of (load_price_history df today)). dated r)
         \<and> (\<forall>c\<in>price_columns. (\<exists>x. Num x \<in> set (col df c)) \<longrightarrow>
               (\<forall>v\<in>set (col_of (load_price_history df today) c). \<exists>y. v = Num y))"
proof (intro conjI ballI impI)
  assume "today = None \<or> rows df \<noteq> []"
  then have "today = None \<or> rows (clean df) \<noteq> []"
    using length_rows_clean [of df] by auto
  then have "\<exists>out. extend_to today (clean df) = Inr out"
    by (rule extend_to_returns)
  then show "\<exists>out. load_price_history df today = Inr out"
    using assms(1) by (simp add: load_price_history_extend)
next
  from rows_of_load_cases [OF assms(1), of today]
  show "sorted (map stamp_key (rows_of (load_price_history df today)))"
  proof (elim disjE)
    assume "rows_of (load_price_history df today) = rows (clean df)"
    then show ?thesis
      using sorted_clean [OF assms(2)] by simp
  next
    assume "\<exists>t m. max_date (rows (clean df)) = Some m \<and> m < t \<and> rows (clean df) \<noteq> []
               \<and> rows_of (load_price_history df today)
                   = rows (clean df) @ [(last (rows (clean df)))(''date'' := Stamp t)]"
    then obtain t m where m: "max_date (rows (clean df)) = Some m" and t: "m < t"
      and o: "rows_of (load_price_history df today)
                = rows (clean df) @ [(last (rows (clean df)))(''date'' := Stamp t)]"
      by blast
    have "stamp_key r \<le> t" if "r \<in> set (rows (clean df))" for r
    proof -
      from dated_clean [OF assms(2) that] obtain d where d: "r ''date'' = Stamp d"
        by (auto simp: dated_iff)
      with m that have "d \<le> m" by (rule max_date_ge)
      with t d show ?thesis by (simp add: stamp_key_date)
    qed
    then show ?thesis
      using sorted_clean [OF assms(2)] by (simp add: o sorted_append stamp_key_def)
  next
    assume "rows_of (load_price_history df today) = []"
    then show ?thesis by simp
  qed
next
  fix r assume r: "r \<in> set (rows_of (load_price_history df today))"
  from rows_of_load_cases [OF assms(1), of today] r
  show "dated r"
    using dated_clean [OF assms(2)] by (auto simp: dated_iff)
next
  fix c v
  assume c: "c \<in> price_columns" and "\<exists>x. Num x \<in> set (col df c)"
    and v: "v \<in> set (col_of (load_price_history df today) c)"
  then obtain x where x: "Num x \<in> set (col df c)" by blast
  from c have nd: "c \<noteq> ''date''" by (auto simp: price_columns_def)
  from rows_of_load_cases [OF assms(1), of today]
  have "set (col_of (load_price_history df today) c) \<subseteq> set (col (clean df) c)"
  proof (elim disjE)
    assume "rows_of (load_price_history df today) = rows (clean df)"
    then show ?thesis by (simp add: col_of_rows_of col_def)
  next
    assume "\<exists>t m. max_date (rows (clean df)) = Some m \<and> m < t \<and> rows (clean df) \<noteq> []
               \<and> rows_of (load_price_history df today)
                   = rows (clean df) @ [(last (rows (clean df)))(''date'' := Stamp t)]"
    then obtain t where ne: "rows (clean df) \<noteq> []"
      and o: "rows_of (load_price_history df today)
                = rows (clean df) @ [(last (rows (clean df)))(''date'' := Stamp t)]"
      by blast
    from ne have "last (rows (clean df)) \<in> set (rows (clean df))" by simp
    then show ?thesis
      using nd by (auto simp: col_of_rows_of col_def o)
  next
    assume "rows_of (load_price_history df today) = []"
    then show ?thesis by (simp add: col_of_rows_of)
  qed
  with v have "v \<in> set (col (clean df) c)" by blast
  with c x show "\<exists>y. v = Num y" by (rule valid_clean)
qed

lemma short_gaps_dated: "\<forall>r\<in>set (rows short_gaps). dated r"
  by (simp add: short_gaps_def dated_mk_row)

text \<open>The theorem at \<open>short_gaps\<close>, whose rows are out of order, with the reference date 9.\<close>

theorem loaded_table_sorted_complete_witness:
  "sorted (map stamp_key (rows_of (load_price_history short_gaps (Some 9))))
   \<and> Missing \<notin> set (col_of (load_price_history short_gaps (Some 9)) ''crude'')
   \<and> length (rows_of (load_price_history short_gaps (Some 9))) = 6"
proof -
  have "''crude'' \<in> price_columns"
    by (simp add: price_columns_def)
  moreover have "Num 10 \<in> set (col short_gaps ''crude'')"
    by (simp add: col_def short_gaps_def mk_row_simps)
  then have "\<exists>x. Num x \<in> set (col short_gaps ''crude'')" ..
  ultimately have "sorted (map stamp_key (rows_of (load_price_history short_gaps (Some 9))))
    \<and> (\<forall>v\<in>set (col_of (load_price_history short_gaps (Some 9)) ''crude''). \<exists>y. v = Num y)"
    using loaded_table_sorted_complete [OF short_gaps_complete short_gaps_dated, of "Some 9"]
    by blast
  moreover have "length (rows_of (load_price_history short_gaps (Some 9))) = 6"
    using load_price_history_later [OF short_gaps_complete short_gaps_max_date, of 9]
    by (simp add: rows_of_def length_rows_clean) (simp add: short_gaps_def)
  ultimately show ?thesis by auto
qed

section \<open>The scenario builder: proofs\<close>

lemma mset_sort_values_desc: "mset (sort_values_desc f xs) = mset xs"
  by (simp add: sort_values_desc_def)

lemma sorted_sort_values_desc: "sorted_wrt (\<lambda>a b. f b \<le> f a) (sort_values_desc f xs)"
proof -
  have "sorted (map f (sort_key f (rev xs)))"
    by (rule sorted_sort_key)
  then have "sorted_wrt (\<lambda>a b. f a \<le> f b) (sort_key f (rev xs))"
    by (simp add: sorted_map)
  then show ?thesis
    by (simp add: sort_values_desc_def sorted_wrt_rev)
qed

lemma stable_sort_values_desc:
  "filter (\<lambda>y. f y = k) (sort_values_desc f xs) = filter (\<lambda>y. f y = k) xs"
  by (simp add: sort_values_desc_def sort_key_stable flip: rev_filter)

lemma scenarios_explicit:
  "scenarios c r u =
    [scenario_row c r u (- 1) (- 0.05), scenario_row c r u (- 1) 0, scenario_row c r u (- 1) 0.05,
     scenario_row c r u 0 (- 0.05), scenario_row c r u 0 0, scenario_row c r u 0 0.05,
     scenario_row c r u 1 (- 0.05), scenario_row c r u 1 0, scenario_row c r u 1 0.05]"
  by (simp add: scenarios_def crude_moves_def prod_moves_def)

text \<open>
  C3. For all base values \<open>c\<close>, \<open>r\<close>, \<open>u\<close> of crude, rbob and ulsd,
  \<open>build_scenario_table\<close> returns exactly 9 rows; as a multiset they are the rows of
  the Cartesian product of the crude deltas -1, 0, +1 and the product deltas -0.05, 0,
  +0.05 (the product delta added to both rbob and ulsd), each with the crack of the
  3-2-1 formula; no row has a larger crack than a row before it; and the rows of any
  one crack value stand in the order of the enumeration (crude delta in the outer
  loop, product delta in the inner loop).
\<close>

theorem build_scenario_table_grid:
  "length (build_scenario_table c r u) = 9
   \<and> mset (build_scenario_table c r u)
       = mset (concat (map (\<lambda>dc. map (\<lambda>dp.
                 \<lparr>crude = c + dc, rbob = r + dp, ulsd = u + dp,
                  crack = crack_formula (c + dc) (r + dp) (u + dp)\<rparr>) [- 0.05, 0, 0.05]) [- 1, 0, 1]))
   \<and> sorted_wrt (\<lambda>a b. crack b \<le> crack a) (build_scenario_table c r u)
   \<and> (\<forall>k. filter (\<lambda>s. crack s = k) (build_scenario_table c r u)
            = filter (\<lambda>s. crack s = k) (scenarios c r u))"
proof (intro conjI allI)
  show "length (build_scenario_table c r u) = 9"
    by (simp add: build_scenario_table_def sort_values_desc_def scenarios_explicit)
next
  have "scenarios c r u = concat (map (\<lambda>dc. map (\<lambda>dp.
                 \<lparr>crude = c + dc, rbob = r + dp, ulsd = u + dp,
                  crack = crack_formula (c + dc) (r + dp) (u + dp)\<rparr>) [- 0.05, 0, 0.05]) [- 1, 0, 1])"
    by (simp add: scenarios_explicit scenario_row_def crack_formula_def Let_def)
  then show "mset (build_scenario_table c r u)
       = mset (concat (map (\<lambda>dc. map (\<lambda>dp.
                 \<lparr>crude = c + dc, rbob = r + dp, ulsd = u + dp,
                  crack = crack_formula (c + dc) (r + dp) (u + dp)\<rparr>) [- 0.05, 0, 0.05]) [- 1, 0, 1]))"
    unfolding build_scenario_table_def mset_sort_values_desc by simp
next
  show "sorted_wrt (\<lambda>a b. crack b \<le> crack a) (build_scenario_table c r u)"
    unfolding build_scenario_table_def by (rule sorted_sort_values_desc)
next
  fix k
  show "filter (\<lambda>s. crack s = k) (build_scenario_table c r u)
            = filter (\<lambda>s. crack s = k) (scenarios c r u)"
    unfolding build_scenario_table_def by (rule stable_sort_values_desc)
qed

section \<open>The note reporter: proofs\<close>

text \<open>
  C10. The file system that \<open>write_market_note\<close> leaves, and so the text of the note,
  does not depend on the reference date: for the same formats, file system, prices
  table, path and citations, any two values of \<open>today\<close> give the same result (the same
  exception or the same files).
\<close>

theorem write_market_note_ignores_today:
  "write_market_note F fs prices today1 note_path citation_refs
     = write_market_note F fs prices today2 note_path citation_refs"
  by (simp add: write_market_note_def)

end
